theory Spec2Isabelle
  imports Main "HOL-Library.Word"
begin

section \<open>Go values and the pieces of the standard library the program calls\<close>

text \<open>
  The program is one Go file, \<^verbatim>\<open>src/main.go\<close>. Go's \<^verbatim>\<open>int\<close> is taken at its width on
  64-bit platforms; \<^verbatim>\<open>+\<close> on it wraps around and comparisons are signed, so they are
  written with \<^const>\<open>sint\<close>. A Go \<^verbatim>\<open>string\<close> is a sequence of bytes, as \<^typ>\<open>string\<close>
  is here. A Go \<^verbatim>\<open>error\<close> is represented by its message.
\<close>

type_synonym go_int = "64 word"
type_synonym int64 = "64 word"
type_synonym error = string

subsection \<open>\<^verbatim>\<open>fmt\<close>: the verb \<^verbatim>\<open>%d\<close>\<close>

definition digit_char :: "nat \<Rightarrow> char" where
  "digit_char d = char_of (48 + d)"

fun decimal :: "nat \<Rightarrow> string" where
  "decimal n = (if n < 10 then [digit_char n] else decimal (n div 10) @ [digit_char (n mod 10)])"

declare decimal.simps [simp del]

definition sprintf_d :: "int \<Rightarrow> string" where
  "sprintf_d i = (if i < 0 then CHR ''-'' # decimal (nat (- i)) else decimal (nat i))"

subsection \<open>\<^verbatim>\<open>strings.EqualFold\<close>\<close>

text \<open>
  \<^verbatim>\<open>strings.EqualFold\<close> walks both strings byte by byte while every byte is ASCII: equal
  bytes match, and so do an upper-case letter and its lower-case form. At the first byte
  \<^verbatim>\<open>>= utf8.RuneSelf\<close> (128) it hands the two remaining suffixes to its Unicode
  simple-folding loop, which is not modelled: it is the parameter \<open>hasUnicode\<close>.
\<close>

fun EqualFold :: "(string \<Rightarrow> string \<Rightarrow> bool) \<Rightarrow> string \<Rightarrow> string \<Rightarrow> bool" where
  "EqualFold hasUnicode [] t = (t = [])"
| "EqualFold hasUnicode (sr # s) [] = False"
| "EqualFold hasUnicode (sr # s) (tr # t) =
     (if 128 \<le> (of_char sr :: nat) \<or> 128 \<le> (of_char tr :: nat) then hasUnicode (sr # s) (tr # t)
      else if tr = sr then EqualFold hasUnicode s t
      else let lo = min (of_char sr :: nat) (of_char tr); hi = max (of_char sr :: nat) (of_char tr)
           in if 65 \<le> lo \<and> lo \<le> 90 \<and> hi = lo + 32 then EqualFold hasUnicode s t else False)"

text \<open>
  For stating what the ASCII walk decides: an upper-case ASCII letter goes to its lower-case
  form, every other byte stays.
\<close>

definition ascii_lower :: "char \<Rightarrow> char" where
  "ascii_lower c =
     (if 65 \<le> (of_char c :: nat) \<and> (of_char c :: nat) \<le> 90 then char_of ((of_char c :: nat) + 32) else c)"

subsection \<open>\<^verbatim>\<open>net/http\<close> and \<^verbatim>\<open>net/url\<close>\<close>

definition baseURL :: string where
  "baseURL = ''https://buckets.grayhatwarfare.com/api/v2''"

text \<open>
  A URL is kept as its endpoint and its query parameters, before percent-encoding.
  \<^verbatim>\<open>buildURL\<close> sets a parameter only when its value is not empty.
\<close>

record url =
  endpoint :: string
  query :: "string \<rightharpoonup> string"

definition buildURL :: "string \<Rightarrow> (string \<rightharpoonup> string) \<Rightarrow> url" where
  "buildURL path params =
     \<lparr>endpoint = baseURL @ path,
      query = (\<lambda>k. case params k of None \<Rightarrow> None | Some v \<Rightarrow> if v \<noteq> [] then Some v else None)\<rparr>"

record request =
  Method :: string
  URL :: url
  Authorization :: string

text \<open>
  What \<^verbatim>\<open>client.Do\<close> gives back: an error, or a response with its status code and the
  result of reading its body. The remote API is a function of the request and of the number
  of requests made before it.
\<close>

datatype http_result = DoError error | Response int "error + string"

type_synonym http_client = "nat \<Rightarrow> request \<Rightarrow> http_result"

definition doGet :: "http_client \<Rightarrow> nat \<Rightarrow> string \<Rightarrow> url \<Rightarrow> error + string" where
  "doGet client n apiKey urlStr =
     (case client n \<lparr>Method = ''GET'', URL = urlStr, Authorization = ''Bearer '' @ apiKey\<rparr> of
        DoError err \<Rightarrow> Inl err
      | Response StatusCode Body \<Rightarrow>
          if StatusCode \<noteq> 200 then Inl (''http '' @ sprintf_d StatusCode) else Body)"

section \<open>Data model\<close>

text \<open>
  The identifier fields are declared \<^verbatim>\<open>any\<close> in the source; their type is the parameter
  \<open>'any\<close>.
\<close>

record 'any File =
  File_ID :: 'any
  File_Bucket :: string
  File_BucketID :: 'any
  File_Name :: string
  File_URL :: string
  File_Size :: int64
  File_Type :: string
  File_LastModified :: int64

record 'any FilesResponse =
  Files :: "'any File list"
  Files_Meta_Results :: go_int

record 'any Bucket =
  Bucket_ID :: 'any
  Bucket_Bucket :: string
  Bucket_FileCount :: go_int
  Bucket_Type :: string

record 'any BucketsResponse =
  Buckets :: "'any Bucket list"
  Buckets_Meta_Results :: go_int

text \<open>
  The environment of a run: the HTTP client with the remote API behind it, the file system
  calls, and the library functions whose results the program only passes on
  (\<^verbatim>\<open>json.Unmarshal\<close>, \<^verbatim>\<open>fmt.Sprint\<close> of an \<^verbatim>\<open>any\<close>, \<^verbatim>\<open>time.Unix(sec, 0).Format(layout)\<close>
  in the local time zone, the Unicode loop of \<^verbatim>\<open>strings.EqualFold\<close>, and the JSON encodings
  of a string and of an \<^verbatim>\<open>any\<close>).
\<close>

record 'any env =
  client :: http_client
  os_Create :: "string \<Rightarrow> error option"
  os_WriteFile :: "string \<Rightarrow> string \<Rightarrow> error option"
  Unmarshal_Files :: "string \<Rightarrow> error + 'any FilesResponse"
  Unmarshal_Buckets :: "string \<Rightarrow> error + 'any BucketsResponse"
  Sprint :: "'any \<Rightarrow> string"
  Time_Unix_Format :: "int64 \<Rightarrow> string \<Rightarrow> string"
  hasUnicode :: "string \<Rightarrow> string \<Rightarrow> bool"
  Marshal_string :: "string \<Rightarrow> string"
  Marshal_any :: "'any \<Rightarrow> string"

definition time_RFC3339 :: string where
  "time_RFC3339 = ''2006-01-02T15:04:05Z07:00''"

section \<open>The state of a paginated command\<close>

text \<open>
  The local variables of \<^verbatim>\<open>handleFiles\<close> and \<^verbatim>\<open>handleBuckets\<close> and what the command has
  done so far: \<open>allRecords\<close> is \<^verbatim>\<open>allFiles\<close> or \<^verbatim>\<open>allBuckets\<close>, \<open>wbuf\<close> the rows held by the
  \<^verbatim>\<open>csv.Writer\<close>, \<open>csvfile\<close> the rows flushed to the output file, \<open>stdout\<close> the writes to
  standard output in order. \<open>requests\<close> and \<open>responses\<close> log the URLs requested and the page
  envelopes decoded. A CSV file is kept as its rows, before quoting.
\<close>

record ('rec, 'resp) pstate =
  offset :: go_int
  total :: go_int
  fetched :: int64
  allRecords :: "'rec list"
  wbuf :: "string list list"
  csvfile :: "string list list"
  stdout :: "string list"
  requests :: "url list"
  responses :: "'resp list"

definition csv_Write :: "string list \<Rightarrow> ('rec, 'resp) pstate \<Rightarrow> ('rec, 'resp) pstate" where
  "csv_Write row s = s\<lparr>wbuf := wbuf s @ [row]\<rparr>"

definition csv_Flush :: "('rec, 'resp) pstate \<Rightarrow> ('rec, 'resp) pstate" where
  "csv_Flush s = s\<lparr>csvfile := csvfile s @ wbuf s, wbuf := []\<rparr>"

definition print :: "string \<Rightarrow> ('rec, 'resp) pstate \<Rightarrow> ('rec, 'resp) pstate" where
  "print text s = s\<lparr>stdout := stdout s @ [text]\<rparr>"

text \<open>
  One pass through the body of \<^verbatim>\<open>for { ... }\<close> ends in \<^verbatim>\<open>log.Fatalf\<close> (the process exits
  with the message, deferred calls do not run), in \<^verbatim>\<open>break\<close>, or at the end of the body.
  The loop may run forever, so it is driven by fuel.
\<close>

datatype 'st step = is_Abort: Abort string 'st | is_Break: Break 'st | is_Continue: Continue 'st

datatype 'st outcome = is_Fatal: Fatal string 'st | is_Done: Done 'st | is_OutOfFuel: OutOfFuel 'st

fun for_loop :: "('st \<Rightarrow> 'st step) \<Rightarrow> nat \<Rightarrow> 'st \<Rightarrow> 'st outcome" where
  "for_loop body 0 s = OutOfFuel s"
| "for_loop body (Suc n) s =
     (case body s of
        Abort msg s' \<Rightarrow> Fatal msg s'
      | Break s' \<Rightarrow> Done s'
      | Continue s' \<Rightarrow> for_loop body n s')"

fun step_state :: "'st step \<Rightarrow> 'st" where
  "step_state (Abort msg s) = s"
| "step_state (Break s) = s"
| "step_state (Continue s) = s"

fun outcome_state :: "'st outcome \<Rightarrow> 'st" where
  "outcome_state (Fatal msg s) = s"
| "outcome_state (Done s) = s"
| "outcome_state (OutOfFuel s) = s"

subsection \<open>The fragments the two commands share word for word\<close>

text \<open>Lines 122-125 and 206-209.\<close>

definition clampPageSize :: "go_int \<Rightarrow> go_int" where
  "clampPageSize limit = (if sint limit \<le> 0 \<or> sint limit > 1000 then 1000 else limit)"

text \<open>Lines 181-183 and 280-282: \<^verbatim>\<open>if total == -1 { total = resp.Meta.Results }\<close>.\<close>

definition captureTotal :: "go_int \<Rightarrow> ('rec, 'resp) pstate \<Rightarrow> ('rec, 'resp) pstate" where
  "captureTotal results s = (if total s = - 1 then s\<lparr>total := results\<rparr> else s)"

text \<open>
  Lines 184-188 and 283-287. The format strings are
  \<^verbatim>\<open>"\r<E5 B7 B2 E8 8E B7 E5 8F 96> %d / %d <E6 9D A1>"\<close> and
  \<^verbatim>\<open>"\r<E5 B7 B2 E8 8E B7 E5 8F 96> %d <E6 9D A1>"\<close>: a carriage return, three Chinese
  characters in UTF-8, the numbers, and one more Chinese character.
\<close>

definition progress_prefix :: string where
  "progress_prefix = [CHR 0x0D, CHR 0xE5, CHR 0xB7, CHR 0xB2, CHR 0xE8, CHR 0x8E, CHR 0xB7,
     CHR 0xE5, CHR 0x8F, CHR 0x96, CHR '' '']"

definition progress_suffix :: string where
  "progress_suffix = [CHR '' '', CHR 0xE6, CHR 0x9D, CHR 0xA1]"

definition progress :: "int64 \<Rightarrow> go_int \<Rightarrow> string" where
  "progress n tot =
     (if sint tot > 0
      then progress_prefix @ sprintf_d (sint n) @ '' / '' @ sprintf_d (sint tot) @ progress_suffix
      else progress_prefix @ sprintf_d (sint n) @ progress_suffix)"

text \<open>
  Lines 190 and 289: \<^verbatim>\<open>len(records) < pageSize || (total > 0 && offset+pageSize >= total)\<close>.
  \<^verbatim>\<open>len\<close> is never negative and below \<open>2 ^ 63\<close>, so it is compared as an integer.
\<close>

definition shouldBreak :: "nat \<Rightarrow> go_int \<Rightarrow> go_int \<Rightarrow> go_int \<Rightarrow> bool" where
  "shouldBreak len pageSize tot off =
     (int len < sint pageSize \<or> (sint tot > 0 \<and> sint (off + pageSize) \<ge> sint tot))"

text \<open>
  \<^verbatim>\<open>json.MarshalIndent(v, "", "  ")\<close> of a slice of structs. A nil slice encodes as
  \<^verbatim>\<open>null\<close>; \<^verbatim>\<open>allFiles\<close> and \<^verbatim>\<open>allBuckets\<close> start nil and stay nil until a record is
  appended. Otherwise the elements are encoded one level deep, separated by commas.
\<close>

fun join :: "string \<Rightarrow> string list \<Rightarrow> string" where
  "join sep [] = []"
| "join sep [x] = x"
| "join sep (x # y # ys) = x @ sep @ join sep (y # ys)"

datatype 'any jvalue = JAny 'any | JString string | JInt int64

definition Marshal_value :: "'any env \<Rightarrow> 'any jvalue \<Rightarrow> string" where
  "Marshal_value env v =
     (case v of JAny a \<Rightarrow> Marshal_any env a
      | JString s \<Rightarrow> Marshal_string env s
      | JInt n \<Rightarrow> sprintf_d (sint n))"

definition Marshal_struct :: "'any env \<Rightarrow> (string \<times> 'any jvalue) list \<Rightarrow> string" where
  "Marshal_struct env members =
     ''{'' @ [CHR 0x0A] @
     join ('','' @ [CHR 0x0A])
       (map (\<lambda>(k, v). ''    '' @ [CHR 0x22] @ k @ [CHR 0x22] @ '': '' @ Marshal_value env v) members) @
     [CHR 0x0A] @ ''  }''"

definition MarshalIndent :: "'any env \<Rightarrow> ('rec \<Rightarrow> (string \<times> 'any jvalue) list) \<Rightarrow> 'rec list \<Rightarrow> string" where
  "MarshalIndent env fields_of xs =
     (case xs of
        [] \<Rightarrow> ''null''
      | _ \<Rightarrow> ''['' @ [CHR 0x0A] @
             join ('','' @ [CHR 0x0A]) (map (\<lambda>x. ''  '' @ Marshal_struct env (fields_of x)) xs) @
             [CHR 0x0A] @ '']'')"


text \<open>
  For stating what the loop tracks: the value of \<^verbatim>\<open>total\<close> after envelopes reporting the
  given totals, each passed through \<^verbatim>\<open>if total == -1 { total = ... }\<close>.
\<close>

definition trackedTotal :: "go_int list \<Rightarrow> go_int" where
  "trackedTotal results = foldl (\<lambda>t r. if t = - 1 then r else t) (- 1) results"

text \<open>
  For stating when the loop completes: \<open>rs\<close> are the pages of a run that starts with request
  number \<open>c\<close>, offset \<open>off\<close> and tracked total \<open>tot\<close>. The request number \<open>c + k\<close> is made
  at offset \<open>off + k * P\<close> and decodes to the page \<open>rs ! k\<close>, and the stop test of lines 190
  and 289 holds at the last page and at no page before it.
\<close>

definition paged_run ::
  "(nat \<Rightarrow> go_int \<Rightarrow> string + 'resp) \<Rightarrow> ('resp \<Rightarrow> nat) \<Rightarrow> ('resp \<Rightarrow> go_int) \<Rightarrow>
   go_int \<Rightarrow> nat \<Rightarrow> go_int \<Rightarrow> go_int \<Rightarrow> 'resp list \<Rightarrow> bool" where
  "paged_run fetch len res P c off tot rs \<longleftrightarrow>
     rs \<noteq> [] \<and>
     (\<forall>k < length rs. fetch (c + k) (off + of_nat k * P) = Inr (rs ! k)) \<and>
     (\<forall>k < length rs.
        shouldBreak (len (rs ! k)) P
          (foldl (\<lambda>t r. if t = - 1 then r else t) tot (map res (take (Suc k) rs)))
          (off + of_nat k * P)
        \<longleftrightarrow> Suc k = length rs)"

section \<open>\<^verbatim>\<open>handleFiles\<close>\<close>

text \<open>The struct tags of \<^verbatim>\<open>File\<close> (lines 20-29): what \<^verbatim>\<open>encoding/json\<close> writes for a file.\<close>

definition File_json :: "'any File \<Rightarrow> (string \<times> 'any jvalue) list" where
  "File_json f =
     [(''id'', JAny (File_ID f)),
      (''bucket'', JString (File_Bucket f)),
      (''bucketId'', JAny (File_BucketID f)),
      (''name'', JString (File_Name f)),
      (''url'', JString (File_URL f)),
      (''size'', JInt (File_Size f)),
      (''type'', JString (File_Type f)),
      (''lastModified'', JInt (File_LastModified f))]"

definition files_header :: "string list" where
  "files_header = [''id'', ''bucket'', ''bucketId'', ''name'', ''url'', ''size'', ''type'', ''lastModified'']"

text \<open>Lines 164-173.\<close>

definition files_row :: "'any env \<Rightarrow> 'any File \<Rightarrow> string list" where
  "files_row env f =
     [Sprint env (File_ID f),
      File_Bucket f,
      Sprint env (File_BucketID f),
      File_Name f,
      File_URL f,
      sprintf_d (sint (File_Size f)),
      File_Type f,
      Time_Unix_Format env (File_LastModified f) time_RFC3339]"

type_synonym 'any files_state = "('any File, 'any FilesResponse) pstate"

text \<open>Lines 144-151.\<close>

definition files_url :: "string \<Rightarrow> string \<Rightarrow> string \<Rightarrow> string \<Rightarrow> go_int \<Rightarrow> go_int \<Rightarrow> url" where
  "files_url keywords bucket ext noext pageSize off =
     buildURL ''/files''
       [''keywords'' \<mapsto> keywords,
        ''bucket'' \<mapsto> bucket,
        ''extensions'' \<mapsto> ext,
        ''stopextensions'' \<mapsto> noext,
        ''limit'' \<mapsto> sprintf_d (sint pageSize),
        ''start'' \<mapsto> sprintf_d (sint off)]"

text \<open>Lines 152-159: the request and the decoding of its body, with the fatal messages.\<close>

definition files_fetch :: "'any env \<Rightarrow> string \<Rightarrow> nat \<Rightarrow> url \<Rightarrow> string + 'any FilesResponse" where
  "files_fetch env apiKey n urlStr =
     (case doGet (client env) n apiKey urlStr of
        Inl err \<Rightarrow> Inl (''request error: '' @ err)
      | Inr data \<Rightarrow>
          (case Unmarshal_Files env data of
             Inl err \<Rightarrow> Inl (''decode: '' @ err)
           | Inr resp \<Rightarrow> Inr resp))"

text \<open>Lines 161-178: write the page to the CSV writer and flush, or collect it.\<close>

definition files_sink :: "'any env \<Rightarrow> string \<Rightarrow> 'any FilesResponse \<Rightarrow> 'any files_state \<Rightarrow> 'any files_state" where
  "files_sink env output resp s =
     (if output \<noteq> []
      then csv_Flush (foldl (\<lambda>s f. csv_Write (files_row env f) s) s (Files resp))
      else s\<lparr>allRecords := allRecords s @ Files resp\<rparr>)"

text \<open>Lines 161-188: the page goes to the sink, then the counters and the progress line.\<close>

definition files_page :: "'any env \<Rightarrow> string \<Rightarrow> 'any FilesResponse \<Rightarrow> 'any files_state \<Rightarrow> 'any files_state" where
  "files_page env output resp s =
     (let s2 = files_sink env output resp s;
          s3 = s2\<lparr>fetched := fetched s2 + of_nat (length (Files resp))\<rparr>;
          s4 = captureTotal (Files_Meta_Results resp) s3
      in print (progress (fetched s4) (total s4)) s4)"

text \<open>Lines 144-193: the body of the loop.\<close>

definition files_body ::
  "'any env \<Rightarrow> string \<Rightarrow> string \<Rightarrow> string \<Rightarrow> string \<Rightarrow> string \<Rightarrow> go_int \<Rightarrow> string \<Rightarrow>
   'any files_state \<Rightarrow> 'any files_state step" where
  "files_body env apiKey keywords bucket ext noext pageSize output s =
     (let urlStr = files_url keywords bucket ext noext pageSize (offset s);
          s1 = s\<lparr>requests := requests s @ [urlStr]\<rparr>
      in case files_fetch env apiKey (length (requests s)) urlStr of
           Inl msg \<Rightarrow> Abort msg s1
         | Inr resp \<Rightarrow>
             let s5 = files_page env output resp (s1\<lparr>responses := responses s1 @ [resp]\<rparr>)
             in if shouldBreak (length (Files resp)) pageSize (total s5) (offset s5)
                then Break s5
                else Continue (s5\<lparr>offset := offset s5 + pageSize\<rparr>))"

text \<open>Lines 196-202, and the deferred \<^verbatim>\<open>w.Flush()\<close> of line 137.\<close>

definition files_finish :: "'any env \<Rightarrow> string \<Rightarrow> 'any files_state \<Rightarrow> 'any files_state" where
  "files_finish env output s =
     (let s1 = print [CHR 0x0A] s
      in if output \<noteq> []
         then csv_Flush (print (''completed, saved to '' @ output @ [CHR 0x0A]) s1)
         else print (MarshalIndent env File_json (allRecords s1)) s1)"

definition init_state :: "go_int \<Rightarrow> ('rec, 'resp) pstate" where
  "init_state start =
     \<lparr>offset = start, total = - 1, fetched = 0, allRecords = [], wbuf = [], csvfile = [],
      stdout = [], requests = [], responses = []\<rparr>"

definition handleFiles ::
  "'any env \<Rightarrow> string \<Rightarrow> string \<Rightarrow> string \<Rightarrow> string \<Rightarrow> string \<Rightarrow> go_int \<Rightarrow> go_int \<Rightarrow> string \<Rightarrow>
   nat \<Rightarrow> 'any files_state outcome" where
  "handleFiles env apiKey keywords bucket ext noext limit start output fuel =
     (let pageSize = clampPageSize limit;
          s0 = init_state start
      in case (if output \<noteq> []
               then (case os_Create env output of
                       Some err \<Rightarrow> Inl (''create csv: '' @ err)
                     | None \<Rightarrow> Inr (csv_Write files_header s0))
               else Inr s0) of
           Inl msg \<Rightarrow> Fatal msg s0
         | Inr s1 \<Rightarrow>
             (case for_loop (files_body env apiKey keywords bucket ext noext pageSize output) fuel s1 of
                Done s \<Rightarrow> Done (files_finish env output s)
              | Fatal msg s \<Rightarrow> Fatal msg s
              | OutOfFuel s \<Rightarrow> OutOfFuel s))"

section \<open>\<^verbatim>\<open>handleBuckets\<close>\<close>

text \<open>The struct tags of \<^verbatim>\<open>Bucket\<close> (lines 38-43).\<close>

definition Bucket_json :: "'any Bucket \<Rightarrow> (string \<times> 'any jvalue) list" where
  "Bucket_json b =
     [(''id'', JAny (Bucket_ID b)),
      (''bucket'', JString (Bucket_Bucket b)),
      (''fileCount'', JInt (Bucket_FileCount b)),
      (''type'', JString (Bucket_Type b))]"

text \<open>Lines 222-226.\<close>

definition buckets_header :: "bool \<Rightarrow> string list" where
  "buckets_header onlyBucket =
     (if onlyBucket then [''bucket''] else [''id'', ''bucket'', ''fileCount'', ''type''])"

text \<open>Lines 260-273.\<close>

definition buckets_row :: "'any env \<Rightarrow> bool \<Rightarrow> 'any Bucket \<Rightarrow> string list" where
  "buckets_row env onlyBucket b =
     (if onlyBucket then [Bucket_Bucket b]
      else [Sprint env (Bucket_ID b),
            Bucket_Bucket b,
            sprintf_d (sint (Bucket_FileCount b)),
            Bucket_Type b])"

type_synonym 'any buckets_state = "('any Bucket, 'any BucketsResponse) pstate"

text \<open>Lines 232-237.\<close>

definition buckets_url :: "string \<Rightarrow> string \<Rightarrow> go_int \<Rightarrow> go_int \<Rightarrow> url" where
  "buckets_url keywords cloudType pageSize off =
     buildURL ''/buckets''
       [''keywords'' \<mapsto> keywords,
        ''type'' \<mapsto> cloudType,
        ''limit'' \<mapsto> sprintf_d (sint pageSize),
        ''start'' \<mapsto> sprintf_d (sint off)]"

text \<open>Lines 238-245.\<close>

definition buckets_fetch :: "'any env \<Rightarrow> string \<Rightarrow> nat \<Rightarrow> url \<Rightarrow> string + 'any BucketsResponse" where
  "buckets_fetch env apiKey n urlStr =
     (case doGet (client env) n apiKey urlStr of
        Inl err \<Rightarrow> Inl (''request error: '' @ err)
      | Inr data \<Rightarrow>
          (case Unmarshal_Buckets env data of
             Inl err \<Rightarrow> Inl (''decode: '' @ err)
           | Inr resp \<Rightarrow> Inr resp))"

text \<open>Lines 247-257: the client-side filter.\<close>

definition clientFilter :: "'any env \<Rightarrow> string \<Rightarrow> 'any BucketsResponse \<Rightarrow> 'any Bucket list" where
  "clientFilter env cloudType resp =
     (if cloudType \<noteq> []
      then filter (\<lambda>b. EqualFold (hasUnicode env) (Bucket_Type b) cloudType) (Buckets resp)
      else Buckets resp)"

text \<open>Lines 259-277.\<close>

definition buckets_sink ::
  "'any env \<Rightarrow> string \<Rightarrow> bool \<Rightarrow> 'any Bucket list \<Rightarrow> 'any buckets_state \<Rightarrow> 'any buckets_state" where
  "buckets_sink env output onlyBucket filtered s =
     (if output \<noteq> []
      then csv_Flush (foldl (\<lambda>s b. csv_Write (buckets_row env onlyBucket b) s) s filtered)
      else s\<lparr>allRecords := allRecords s @ filtered\<rparr>)"

text \<open>
  Lines 259-287: the filtered records go to the sink, then the counters and the progress
  line; \<^verbatim>\<open>fetched\<close> grows by \<^verbatim>\<open>len(filtered)\<close>.
\<close>

definition buckets_page ::
  "'any env \<Rightarrow> string \<Rightarrow> bool \<Rightarrow> 'any Bucket list \<Rightarrow> 'any BucketsResponse \<Rightarrow>
   'any buckets_state \<Rightarrow> 'any buckets_state" where
  "buckets_page env output onlyBucket filtered resp s =
     (let s2 = buckets_sink env output onlyBucket filtered s;
          s3 = s2\<lparr>fetched := fetched s2 + of_nat (length filtered)\<rparr>;
          s4 = captureTotal (Buckets_Meta_Results resp) s3
      in print (progress (fetched s4) (total s4)) s4)"

text \<open>Lines 232-292: the body of the loop.\<close>

definition buckets_body ::
  "'any env \<Rightarrow> string \<Rightarrow> string \<Rightarrow> string \<Rightarrow> go_int \<Rightarrow> string \<Rightarrow> bool \<Rightarrow>
   'any buckets_state \<Rightarrow> 'any buckets_state step" where
  "buckets_body env apiKey keywords cloudType pageSize output onlyBucket s =
     (let urlStr = buckets_url keywords cloudType pageSize (offset s);
          s1 = s\<lparr>requests := requests s @ [urlStr]\<rparr>
      in case buckets_fetch env apiKey (length (requests s)) urlStr of
           Inl msg \<Rightarrow> Abort msg s1
         | Inr resp \<Rightarrow>
             let filtered = clientFilter env cloudType resp;
                 s5 = buckets_page env output onlyBucket filtered resp
                        (s1\<lparr>responses := responses s1 @ [resp]\<rparr>)
             in if shouldBreak (length (Buckets resp)) pageSize (total s5) (offset s5)
                then Break s5
                else Continue (s5\<lparr>offset := offset s5 + pageSize\<rparr>))"

text \<open>Lines 295-307, and the deferred \<^verbatim>\<open>w.Flush()\<close> of line 221.\<close>

definition buckets_finish :: "'any env \<Rightarrow> string \<Rightarrow> bool \<Rightarrow> 'any buckets_state \<Rightarrow> 'any buckets_state" where
  "buckets_finish env output onlyBucket s =
     (let s1 = print [CHR 0x0A] s
      in if output \<noteq> []
         then csv_Flush (print (''completed, saved to '' @ output @ [CHR 0x0A]) s1)
         else if onlyBucket
              then foldl (\<lambda>s b. print (Bucket_Bucket b @ [CHR 0x0A]) s) s1 (allRecords s1)
              else print (MarshalIndent env Bucket_json (allRecords s1)) s1)"

definition handleBuckets ::
  "'any env \<Rightarrow> string \<Rightarrow> string \<Rightarrow> string \<Rightarrow> go_int \<Rightarrow> go_int \<Rightarrow> string \<Rightarrow> bool \<Rightarrow>
   nat \<Rightarrow> 'any buckets_state outcome" where
  "handleBuckets env apiKey keywords cloudType limit start output onlyBucket fuel =
     (let pageSize = clampPageSize limit;
          s0 = init_state start
      in case (if output \<noteq> []
               then (case os_Create env output of
                       Some err \<Rightarrow> Inl (''create csv: '' @ err)
                     | None \<Rightarrow> Inr (csv_Write (buckets_header onlyBucket) s0))
               else Inr s0) of
           Inl msg \<Rightarrow> Fatal msg s0
         | Inr s1 \<Rightarrow>
             (case for_loop (buckets_body env apiKey keywords cloudType pageSize output onlyBucket) fuel s1 of
                Done s \<Rightarrow> Done (buckets_finish env output onlyBucket s)
              | Fatal msg s \<Rightarrow> Fatal msg s
              | OutOfFuel s \<Rightarrow> OutOfFuel s))"

section \<open>\<^verbatim>\<open>handleStats\<close>\<close>

text \<open>
  What the command leaves behind: the writes to standard output and the files on disk by
  name. \<^verbatim>\<open>os.WriteFile\<close> either fails or leaves the file holding exactly the bytes given;
  what a failed write leaves on disk is not modelled.
\<close>

record stats_state =
  stats_stdout :: "string list"
  disk :: "string \<rightharpoonup> string"

definition handleStats :: "'any env \<Rightarrow> (string \<rightharpoonup> string) \<Rightarrow> string \<Rightarrow> string \<Rightarrow> stats_state outcome" where
  "handleStats env disk0 apiKey output =
     (let urlStr = \<lparr>endpoint = baseURL @ ''/stats'', query = Map.empty\<rparr>;
          s0 = \<lparr>stats_stdout = [], disk = disk0\<rparr>
      in case doGet (client env) 0 apiKey urlStr of
           Inl err \<Rightarrow> Fatal (''request error: '' @ err) s0
         | Inr data \<Rightarrow>
             if output = [] then Done (s0\<lparr>stats_stdout := [data]\<rparr>)
             else (case os_WriteFile env output data of
                     Some err \<Rightarrow> Fatal (''write file: '' @ err) s0
                   | None \<Rightarrow>
                       Done \<lparr>stats_stdout = [''stats saved to '' @ output @ [CHR 0x0A]],
                             disk = disk0(output \<mapsto> data)\<rparr>))"

section \<open>Example environments\<close>

text \<open>
  A small remote API for running the commands on concrete pages: the body of a response
  is the \<^verbatim>\<open>start\<close> parameter of the request, and decoding looks the page up in a table
  under that text. Identifiers are strings. A request without the expected bearer token
  is answered with status 401.
\<close>

definition table_client :: http_client where
  "table_client n r =
     (if Authorization r \<noteq> ''Bearer key'' then Response 401 (Inr [])
      else case query (URL r) ''start'' of
             None \<Rightarrow> Response 200 (Inr ''stats-body'')
           | Some st \<Rightarrow> Response 200 (Inr st))"

definition table_env ::
  "(string \<times> string FilesResponse) list \<Rightarrow> (string \<times> string BucketsResponse) list \<Rightarrow> string env" where
  "table_env fp bp =
     \<lparr>client = table_client,
      os_Create = (\<lambda>name. None),
      os_WriteFile = (\<lambda>name data. None),
      Unmarshal_Files = (\<lambda>d. case map_of fp d of
                            None \<Rightarrow> Inl ''unexpected end of JSON input'' | Some r \<Rightarrow> Inr r),
      Unmarshal_Buckets = (\<lambda>d. case map_of bp d of
                            None \<Rightarrow> Inl ''unexpected end of JSON input'' | Some r \<Rightarrow> Inr r),
      Sprint = (\<lambda>a. a),
      Time_Unix_Format = (\<lambda>sec layout. if sec = 0 \<and> layout = time_RFC3339
                                        then ''1970-01-01T00:00:00Z'' else ''?''),
      hasUnicode = (\<lambda>s t. False),
      Marshal_string = (\<lambda>s. [CHR 0x22] @ s @ [CHR 0x22]),
      Marshal_any = (\<lambda>a. [CHR 0x22] @ a @ [CHR 0x22])\<rparr>"

definition example_file :: "string \<Rightarrow> string File" where
  "example_file name =
     \<lparr>File_ID = ''7'', File_Bucket = ''b.s3.amazonaws.com'', File_BucketID = ''1'',
      File_Name = name, File_URL = ''http://b.s3.amazonaws.com/'' @ name, File_Size = 12,
      File_Type = ''pdf'', File_LastModified = 0\<rparr>"

definition example_bucket :: "string \<Rightarrow> string \<Rightarrow> string Bucket" where
  "example_bucket name type =
     \<lparr>Bucket_ID = ''3'', Bucket_Bucket = name, Bucket_FileCount = 4, Bucket_Type = type\<rparr>"

text \<open>
  Two pages of files for page size 2: a full first page whose envelope reports a total of
  0, then a short page.
\<close>

definition two_file_pages :: "(string \<times> string FilesResponse) list" where
  "two_file_pages =
     [(''0'', \<lparr>Files = [example_file ''a'', example_file ''b''], Files_Meta_Results = 0\<rparr>),
      (''2'', \<lparr>Files = [example_file ''c''], Files_Meta_Results = 3\<rparr>)]"

text \<open>One empty page of files.\<close>

definition empty_file_page :: "(string \<times> string FilesResponse) list" where
  "empty_file_page = [(''0'', \<lparr>Files = [], Files_Meta_Results = 0\<rparr>)]"

text \<open>One page of five buckets, three of them on aws.\<close>

definition five_buckets :: "(string \<times> string BucketsResponse) list" where
  "five_buckets =
     [(''0'', \<lparr>Buckets = [example_bucket ''one'' ''aws'', example_bucket ''two'' ''azure'',
                           example_bucket ''three'' ''AWS'', example_bucket ''four'' ''azure'',
                           example_bucket ''five'' ''Aws''],
               Buckets_Meta_Results = 5\<rparr>)]"

text \<open>
  Pages of two azure buckets for page size 2. In the first table the envelope reports a
  total of 2; in the second it reports 0 and a short page follows.
\<close>

definition azure_pages_total :: "(string \<times> string BucketsResponse) list" where
  "azure_pages_total =
     [(''0'', \<lparr>Buckets = [example_bucket ''x'' ''azure'', example_bucket ''y'' ''azure''],
               Buckets_Meta_Results = 2\<rparr>)]"

definition azure_pages :: "(string \<times> string BucketsResponse) list" where
  "azure_pages =
     [(''0'', \<lparr>Buckets = [example_bucket ''x'' ''azure'', example_bucket ''y'' ''azure''],
               Buckets_Meta_Results = 0\<rparr>),
      (''2'', \<lparr>Buckets = [example_bucket ''z'' ''aws''], Buckets_Meta_Results = 0\<rparr>)]"

section \<open>Facts about the loop and its body\<close>

lemma for_loop_invariant:
  assumes "I s" and "\<And>s. I s \<Longrightarrow> I (step_state (body s))"
  shows "I (outcome_state (for_loop body fuel s))"
  using assms(1)
proof (induction fuel arbitrary: s)
  case 0
  then show ?case by simp
next
  case (Suc n)
  from assms(2)[OF Suc.prems] Suc.IH show ?case
    by (cases "body s") auto
qed

lemma foldl_csv_Write:
  "foldl (\<lambda>s x. csv_Write (row x) s) s xs = s\<lparr>wbuf := wbuf s @ map row xs\<rparr>"
  by (induction xs arbitrary: s) (simp_all add: csv_Write_def)

lemma decimal_nonempty: "decimal n \<noteq> []"
  by (subst decimal.simps) simp

lemma sprintf_d_nonempty: "sprintf_d i \<noteq> []"
  by (simp add: sprintf_d_def decimal_nonempty)

lemma files_url_limit: "query (files_url kw b e ne P off) ''limit'' = Some (sprintf_d (sint P))"
  by (simp add: files_url_def buildURL_def sprintf_d_nonempty)

lemma files_url_start: "query (files_url kw b e ne P off) ''start'' = Some (sprintf_d (sint off))"
  by (simp add: files_url_def buildURL_def sprintf_d_nonempty)

lemma buckets_url_limit: "query (buckets_url kw ct P off) ''limit'' = Some (sprintf_d (sint P))"
  by (simp add: buckets_url_def buildURL_def sprintf_d_nonempty)

lemma buckets_url_start: "query (buckets_url kw ct P off) ''start'' = Some (sprintf_d (sint off))"
  by (simp add: buckets_url_def buildURL_def sprintf_d_nonempty)

lemma files_page_fields:
  "offset (files_page env out resp s) = offset s"
  "total (files_page env out resp s) = (if total s = - 1 then Files_Meta_Results resp else total s)"
  "fetched (files_page env out resp s) = fetched s + of_nat (length (Files resp))"
  "allRecords (files_page env out resp s) = (if out \<noteq> [] then allRecords s else allRecords s @ Files resp)"
  "wbuf (files_page env out resp s) = (if out \<noteq> [] then [] else wbuf s)"
  "csvfile (files_page env out resp s)
     = (if out \<noteq> [] then csvfile s @ wbuf s @ map (files_row env) (Files resp) else csvfile s)"
  "stdout (files_page env out resp s)
     = stdout s @ [progress (fetched s + of_nat (length (Files resp)))
                     (if total s = - 1 then Files_Meta_Results resp else total s)]"
  "requests (files_page env out resp s) = requests s"
  "responses (files_page env out resp s) = responses s"
  by (simp_all add: files_page_def Let_def captureTotal_def print_def files_sink_def csv_Flush_def foldl_csv_Write)

lemma buckets_page_fields:
  "offset (buckets_page env out ob fl resp s) = offset s"
  "total (buckets_page env out ob fl resp s) = (if total s = - 1 then Buckets_Meta_Results resp else total s)"
  "fetched (buckets_page env out ob fl resp s) = fetched s + of_nat (length fl)"
  "allRecords (buckets_page env out ob fl resp s) = (if out \<noteq> [] then allRecords s else allRecords s @ fl)"
  "wbuf (buckets_page env out ob fl resp s) = (if out \<noteq> [] then [] else wbuf s)"
  "csvfile (buckets_page env out ob fl resp s)
     = (if out \<noteq> [] then csvfile s @ wbuf s @ map (buckets_row env ob) fl else csvfile s)"
  "stdout (buckets_page env out ob fl resp s)
     = stdout s @ [progress (fetched s + of_nat (length fl))
                     (if total s = - 1 then Buckets_Meta_Results resp else total s)]"
  "requests (buckets_page env out ob fl resp s) = requests s"
  "responses (buckets_page env out ob fl resp s) = responses s"
  by (simp_all add: buckets_page_def Let_def captureTotal_def print_def buckets_sink_def csv_Flush_def foldl_csv_Write)

lemma files_body_Inl:
  assumes "files_fetch env apiKey (length (requests s)) (files_url kw b e ne P (offset s)) = Inl m"
  shows "files_body env apiKey kw b e ne P out s
       = Abort m (s\<lparr>requests := requests s @ [files_url kw b e ne P (offset s)]\<rparr>)"
  using assms by (simp add: files_body_def Let_def)

lemma files_body_Inr:
  assumes "files_fetch env apiKey (length (requests s)) (files_url kw b e ne P (offset s)) = Inr resp"
  shows "files_body env apiKey kw b e ne P out s
          = (let s' = files_page env out resp
                        (s\<lparr>requests := requests s @ [files_url kw b e ne P (offset s)],
                           responses := responses s @ [resp]\<rparr>)
             in if shouldBreak (length (Files resp)) P
                     (if total s = - 1 then Files_Meta_Results resp else total s) (offset s)
                then Break s' else Continue (s'\<lparr>offset := offset s + P\<rparr>))"
  using assms by (simp add: files_body_def Let_def files_page_fields)

lemma buckets_body_Inl:
  assumes "buckets_fetch env apiKey (length (requests s)) (buckets_url kw ct P (offset s)) = Inl m"
  shows "buckets_body env apiKey kw ct P out ob s
       = Abort m (s\<lparr>requests := requests s @ [buckets_url kw ct P (offset s)]\<rparr>)"
  using assms by (simp add: buckets_body_def Let_def)

lemma buckets_body_Inr:
  assumes "buckets_fetch env apiKey (length (requests s)) (buckets_url kw ct P (offset s)) = Inr resp"
  shows "buckets_body env apiKey kw ct P out ob s
          = (let s' = buckets_page env out ob (clientFilter env ct resp) resp
                        (s\<lparr>requests := requests s @ [buckets_url kw ct P (offset s)],
                           responses := responses s @ [resp]\<rparr>)
             in if shouldBreak (length (Buckets resp)) P
                     (if total s = - 1 then Buckets_Meta_Results resp else total s) (offset s)
                then Break s' else Continue (s'\<lparr>offset := offset s + P\<rparr>))"
  using assms by (simp add: buckets_body_def Let_def buckets_page_fields)

lemma files_body_requests:
  "requests (step_state (files_body env apiKey kw b e ne P out s))
     = requests s @ [files_url kw b e ne P (offset s)]"
  by (cases "files_fetch env apiKey (length (requests s)) (files_url kw b e ne P (offset s))")
     (simp_all add: files_body_Inl files_body_Inr Let_def files_page_fields)

lemma buckets_body_requests:
  "requests (step_state (buckets_body env apiKey kw ct P out ob s))
     = requests s @ [buckets_url kw ct P (offset s)]"
  by (cases "buckets_fetch env apiKey (length (requests s)) (buckets_url kw ct P (offset s))")
     (simp_all add: buckets_body_Inl buckets_body_Inr Let_def buckets_page_fields)

lemma files_finish_fields:
  "offset (files_finish env out s) = offset s"
  "total (files_finish env out s) = total s"
  "fetched (files_finish env out s) = fetched s"
  "allRecords (files_finish env out s) = allRecords s"
  "wbuf (files_finish env out s) = (if out \<noteq> [] then [] else wbuf s)"
  "csvfile (files_finish env out s) = (if out \<noteq> [] then csvfile s @ wbuf s else csvfile s)"
  "stdout (files_finish env out s)
     = stdout s @ [[CHR 0x0A],
         if out \<noteq> [] then ''completed, saved to '' @ out @ [CHR 0x0A]
         else MarshalIndent env File_json (allRecords s)]"
  "requests (files_finish env out s) = requests s"
  "responses (files_finish env out s) = responses s"
  by (simp_all add: files_finish_def Let_def print_def csv_Flush_def)

lemma foldl_print:
  "foldl (\<lambda>s x. s\<lparr>stdout := stdout s @ [f x]\<rparr>) s xs = s\<lparr>stdout := stdout s @ map f xs\<rparr>"
  by (induction xs arbitrary: s) simp_all

lemma buckets_finish_fields:
  "offset (buckets_finish env out ob s) = offset s"
  "total (buckets_finish env out ob s) = total s"
  "fetched (buckets_finish env out ob s) = fetched s"
  "allRecords (buckets_finish env out ob s) = allRecords s"
  "wbuf (buckets_finish env out ob s) = (if out \<noteq> [] then [] else wbuf s)"
  "csvfile (buckets_finish env out ob s) = (if out \<noteq> [] then csvfile s @ wbuf s else csvfile s)"
  "stdout (buckets_finish env out ob s)
     = stdout s @ [CHR 0x0A] #
         (if out \<noteq> [] then [''completed, saved to '' @ out @ [CHR 0x0A]]
          else if ob then map (\<lambda>b. Bucket_Bucket b @ [CHR 0x0A]) (allRecords s)
          else [MarshalIndent env Bucket_json (allRecords s)])"
  "requests (buckets_finish env out ob s) = requests s"
  "responses (buckets_finish env out ob s) = responses s"
  by (simp_all add: buckets_finish_def Let_def print_def csv_Flush_def foldl_print)

lemma handleFiles_unfold:
  "handleFiles env apiKey kw b e ne limit S out fuel =
     (if out \<noteq> [] \<and> os_Create env out \<noteq> None
      then Fatal (''create csv: '' @ the (os_Create env out)) (init_state S)
      else case for_loop (files_body env apiKey kw b e ne (clampPageSize limit) out) fuel
                  (if out \<noteq> [] then csv_Write files_header (init_state S) else init_state S) of
             Done s \<Rightarrow> Done (files_finish env out s)
           | Fatal msg s \<Rightarrow> Fatal msg s
           | OutOfFuel s \<Rightarrow> OutOfFuel s)"
  by (auto simp: handleFiles_def Let_def split: option.splits)

lemma handleBuckets_unfold:
  "handleBuckets env apiKey kw ct limit S out ob fuel =
     (if out \<noteq> [] \<and> os_Create env out \<noteq> None
      then Fatal (''create csv: '' @ the (os_Create env out)) (init_state S)
      else case for_loop (buckets_body env apiKey kw ct (clampPageSize limit) out ob) fuel
                  (if out \<noteq> [] then csv_Write (buckets_header ob) (init_state S) else init_state S) of
             Done s \<Rightarrow> Done (buckets_finish env out ob s)
           | Fatal msg s \<Rightarrow> Fatal msg s
           | OutOfFuel s \<Rightarrow> OutOfFuel s)"
  by (auto simp: handleBuckets_def Let_def split: option.splits)

lemma handleFiles_invariant:
  assumes init: "I (init_state S)"
    and wr: "\<And>s row. I s \<Longrightarrow> I (csv_Write row s)"
    and body: "\<And>s. I s \<Longrightarrow> I (step_state (files_body env apiKey kw b e ne (clampPageSize limit) out s))"
    and fin: "\<And>s. I s \<Longrightarrow> I (files_finish env out s)"
  shows "I (outcome_state (handleFiles env apiKey kw b e ne limit S out fuel))"
proof -
  let ?s1 = "if out \<noteq> [] then csv_Write files_header (init_state S) else init_state S"
  let ?r = "for_loop (files_body env apiKey kw b e ne (clampPageSize limit) out) fuel ?s1"
  have "I ?s1" using init wr by simp
  then have "I (outcome_state ?r)"
    by (rule for_loop_invariant) (rule body)
  then show ?thesis
    using init fin by (cases ?r) (simp_all add: handleFiles_unfold)
qed

lemma handleBuckets_invariant:
  assumes init: "I (init_state S)"
    and wr: "\<And>s row. I s \<Longrightarrow> I (csv_Write row s)"
    and body: "\<And>s. I s \<Longrightarrow> I (step_state (buckets_body env apiKey kw ct (clampPageSize limit) out ob s))"
    and fin: "\<And>s. I s \<Longrightarrow> I (buckets_finish env out ob s)"
  shows "I (outcome_state (handleBuckets env apiKey kw ct limit S out ob fuel))"
proof -
  let ?s1 = "if out \<noteq> [] then csv_Write (buckets_header ob) (init_state S) else init_state S"
  let ?r = "for_loop (buckets_body env apiKey kw ct (clampPageSize limit) out ob) fuel ?s1"
  have "I ?s1" using init wr by simp
  then have "I (outcome_state ?r)"
    by (rule for_loop_invariant) (rule body)
  then show ?thesis
    using init fin by (cases ?r) (simp_all add: handleBuckets_unfold)
qed

lemma foldl_capture_stable:
  "t \<noteq> - 1 \<Longrightarrow> foldl (\<lambda>t r. if t = - 1 then r else t) t rs = (t :: go_int)"
  by (induction rs) simp_all

lemma trackedTotal_snoc:
  "trackedTotal (rs @ [r]) = (if trackedTotal rs = - 1 then r else trackedTotal rs)"
  by (simp add: trackedTotal_def)

lemma trackedTotal_Cons:
  "r \<noteq> - 1 \<Longrightarrow> trackedTotal (r # rs) = r"
  by (simp add: trackedTotal_def foldl_capture_stable)

lemma files_body_total:
  "total (step_state (files_body env apiKey kw b e ne P out s)) = trackedTotal (map Files_Meta_Results (responses (step_state (files_body env apiKey kw b e ne P out s))))"
  if "total s = trackedTotal (map Files_Meta_Results (responses s))"
  using that
  by (cases "files_fetch env apiKey (length (requests s)) (files_url kw b e ne P (offset s))")
     (simp_all add: files_body_Inl files_body_Inr Let_def files_page_fields trackedTotal_snoc)

lemma buckets_body_total:
  "total (step_state (buckets_body env apiKey kw ct P out ob s)) = trackedTotal (map Buckets_Meta_Results (responses (step_state (buckets_body env apiKey kw ct P out ob s))))"
  if "total s = trackedTotal (map Buckets_Meta_Results (responses s))"
  using that
  by (cases "buckets_fetch env apiKey (length (requests s)) (buckets_url kw ct P (offset s))")
     (simp_all add: buckets_body_Inl buckets_body_Inr Let_def buckets_page_fields trackedTotal_snoc)

lemma handleFiles_total:
  "total (outcome_state (handleFiles env apiKey kw b e ne limit S out fuel))
     = trackedTotal (map Files_Meta_Results
         (responses (outcome_state (handleFiles env apiKey kw b e ne limit S out fuel))))"
  by (rule handleFiles_invariant)
     (simp_all add: init_state_def csv_Write_def files_body_total files_finish_fields trackedTotal_def)

lemma handleBuckets_total:
  "total (outcome_state (handleBuckets env apiKey kw ct limit S out ob fuel))
     = trackedTotal (map Buckets_Meta_Results
         (responses (outcome_state (handleBuckets env apiKey kw ct limit S out ob fuel))))"
  by (rule handleBuckets_invariant)
     (simp_all add: init_state_def csv_Write_def buckets_body_total buckets_finish_fields trackedTotal_def)

lemma shouldBreak_unknown:
  "sint tot \<le> 0 \<Longrightarrow> shouldBreak n P tot off = (int n < sint P)"
  by (simp add: shouldBreak_def)

lemma decimal_chars: "c \<in> set (decimal n) \<Longrightarrow> 48 \<le> (of_char c :: nat) \<and> (of_char c :: nat) \<le> 57"
proof (induction n rule: decimal.induct)
  case (1 n)
  show ?case
  proof (cases "n < 10")
    case True
    with "1.prems" show ?thesis
      by (subst (asm) decimal.simps) (simp add: digit_char_def)
  next
    case False
    with "1.prems" have "c \<in> set (decimal (n div 10)) \<or> c = digit_char (n mod 10)"
      by (subst (asm) decimal.simps) auto
    then show ?thesis
    proof
      assume "c \<in> set (decimal (n div 10))"
      with False "1.IH" show ?thesis by simp
    next
      assume "c = digit_char (n mod 10)"
      moreover have "n mod 10 < 10" by simp
      ultimately show ?thesis
        by (simp add: digit_char_def)
    qed
  qed
qed

lemma sprintf_d_no_newline: "CHR 0x0A \<notin> set (sprintf_d i)"
  using decimal_chars [of "CHR 0x0A"] by (auto simp: sprintf_d_def)

lemma progress_shape: "hd (progress X Y) = CHR 0x0D \<and> CHR 0x0A \<notin> set (progress X Y)"
  by (simp add: progress_def progress_prefix_def progress_suffix_def sprintf_d_no_newline)

lemma files_body_progress:
  assumes "files_fetch env apiKey (length (requests s)) (files_url kw b e ne P (offset s)) = Inr resp"
  shows "let s' = step_state (files_body env apiKey kw b e ne P out s)
         in fetched s' = fetched s + of_nat (length (Files resp)) \<and>
            stdout s' = stdout s @ [progress (fetched s') (total s')]"
  using assms by (simp add: files_body_Inr Let_def files_page_fields)

lemma buckets_body_progress:
  assumes "buckets_fetch env apiKey (length (requests s)) (buckets_url kw ct P (offset s)) = Inr resp"
  shows "let s' = step_state (buckets_body env apiKey kw ct P out ob s)
         in fetched s' = fetched s + of_nat (length (clientFilter env ct resp)) \<and>
            stdout s' = stdout s @ [progress (fetched s') (total s')]"
  using assms by (simp add: buckets_body_Inr Let_def buckets_page_fields)

lemma files_body_fetched:
  "fetched s = of_nat (length (concat (map Files (responses s)))) \<Longrightarrow>
   fetched (step_state (files_body env apiKey kw b e ne P out s))
     = of_nat (length (concat (map Files (responses (step_state (files_body env apiKey kw b e ne P out s))))))"
  by (cases "files_fetch env apiKey (length (requests s)) (files_url kw b e ne P (offset s))")
     (simp_all add: files_body_Inl files_body_Inr Let_def files_page_fields)

lemma buckets_body_fetched:
  "fetched s = of_nat (length (concat (map (clientFilter env ct) (responses s)))) \<Longrightarrow>
   fetched (step_state (buckets_body env apiKey kw ct P out ob s))
     = of_nat (length (concat (map (clientFilter env ct)
         (responses (step_state (buckets_body env apiKey kw ct P out ob s))))))"
  by (cases "buckets_fetch env apiKey (length (requests s)) (buckets_url kw ct P (offset s))")
     (simp_all add: buckets_body_Inl buckets_body_Inr Let_def buckets_page_fields)

lemma handleFiles_fetched:
  "fetched (outcome_state (handleFiles env apiKey kw b e ne limit S out fuel))
     = of_nat (length (concat (map Files
         (responses (outcome_state (handleFiles env apiKey kw b e ne limit S out fuel))))))"
  by (rule handleFiles_invariant)
     (simp_all add: init_state_def csv_Write_def files_body_fetched files_finish_fields)

lemma handleBuckets_fetched:
  "fetched (outcome_state (handleBuckets env apiKey kw ct limit S out ob fuel))
     = of_nat (length (concat (map (clientFilter env ct)
         (responses (outcome_state (handleBuckets env apiKey kw ct limit S out ob fuel))))))"
  by (rule handleBuckets_invariant)
     (simp_all add: init_state_def csv_Write_def buckets_body_fetched buckets_finish_fields)

lemma of_char_ascii_lower:
  "(of_char a :: nat) < 128 \<Longrightarrow>
   (of_char (ascii_lower a) :: nat)
     = (if 65 \<le> (of_char a :: nat) \<and> (of_char a :: nat) \<le> 90 then of_char a + 32 else of_char a)"
  by (simp add: ascii_lower_def)

lemma ascii_lower_eq_iff:
  assumes "(of_char a :: nat) < 128" "(of_char b :: nat) < 128"
  shows "ascii_lower a = ascii_lower b \<longleftrightarrow>
     (b = a \<or> (65 \<le> min (of_char a :: nat) (of_char b) \<and> min (of_char a :: nat) (of_char b) \<le> 90
        \<and> max (of_char a :: nat) (of_char b) = min (of_char a :: nat) (of_char b) + 32))"
proof -
  have "ascii_lower a = ascii_lower b \<longleftrightarrow> (of_char (ascii_lower a) :: nat) = of_char (ascii_lower b)"
    by simp
  moreover have "b = a \<longleftrightarrow> (of_char b :: nat) = of_char a"
    by simp
  ultimately show ?thesis
    unfolding of_char_ascii_lower [OF assms(1)] of_char_ascii_lower [OF assms(2)]
    by (simp only: min_def max_def) (auto split: if_splits)
qed

lemma EqualFold_ascii:
  assumes "\<forall>c \<in> set s. (of_char c :: nat) < 128" "\<forall>c \<in> set t. (of_char c :: nat) < 128"
  shows "EqualFold h s t \<longleftrightarrow> map ascii_lower s = map ascii_lower t"
  using assms
proof (induction s arbitrary: t)
  case Nil
  then show ?case by auto
next
  case (Cons sr s)
  show ?case
  proof (cases t)
    case Nil
    then show ?thesis by simp
  next
    case t: (Cons tr t')
    from Cons.prems t have a: "(of_char sr :: nat) < 128" "(of_char tr :: nat) < 128"
      by simp_all
    from Cons.prems t have "EqualFold h s t' \<longleftrightarrow> map ascii_lower s = map ascii_lower t'"
      by (intro Cons.IH) simp_all
    moreover have "EqualFold h (sr # s) (tr # t') \<longleftrightarrow>
        (tr = sr \<or> (65 \<le> min (of_char sr :: nat) (of_char tr)
            \<and> min (of_char sr :: nat) (of_char tr) \<le> 90
            \<and> max (of_char sr :: nat) (of_char tr) = min (of_char sr :: nat) (of_char tr) + 32))
        \<and> EqualFold h s t'"
      using a by (auto simp: Let_def)
    ultimately show ?thesis
      unfolding t using ascii_lower_eq_iff [OF a] by simp
  qed
qed

lemma clampPageSize_range: "0 < sint (clampPageSize limit) \<and> sint (clampPageSize limit) \<le> 1000"
  by (simp add: clampPageSize_def)

lemma is_Done_eq: "is_Done r \<Longrightarrow> r = Done (outcome_state r)"
  by (cases r) simp_all

lemma handleFiles_Done:
  assumes "handleFiles env apiKey kw b e ne limit S out fuel = Done st"
  shows "(out \<noteq> [] \<longrightarrow> os_Create env out = None) \<and>
    (\<exists>s. for_loop (files_body env apiKey kw b e ne (clampPageSize limit) out) fuel
            (if out \<noteq> [] then csv_Write files_header (init_state S) else init_state S) = Done s \<and>
         st = files_finish env out s)"
  using assms by (auto simp: handleFiles_unfold split: if_splits outcome.splits)

lemma handleBuckets_Done:
  assumes "handleBuckets env apiKey kw ct limit S out ob fuel = Done st"
  shows "(out \<noteq> [] \<longrightarrow> os_Create env out = None) \<and>
    (\<exists>s. for_loop (buckets_body env apiKey kw ct (clampPageSize limit) out ob) fuel
            (if out \<noteq> [] then csv_Write (buckets_header ob) (init_state S) else init_state S) = Done s \<and>
         st = buckets_finish env out ob s)"
  using assms by (auto simp: handleBuckets_unfold split: if_splits outcome.splits)

lemma for_loop_Done_invariant:
  assumes "for_loop body fuel s = Done st" and "I s" and "\<And>s. I s \<Longrightarrow> I (step_state (body s))"
  shows "I st"
  using for_loop_invariant [of I s body fuel, OF assms(2,3)] assms(1) by simp

lemma files_body_collect:
  assumes "allRecords s = concat (map Files (responses s))"
  shows "allRecords (step_state (files_body env apiKey kw b e ne P [] s))
       = concat (map Files (responses (step_state (files_body env apiKey kw b e ne P [] s))))"
  using assms
  by (cases "files_fetch env apiKey (length (requests s)) (files_url kw b e ne P (offset s))")
     (simp_all add: files_body_Inl files_body_Inr Let_def files_page_fields)

lemma handleFiles_collect:
  "allRecords (outcome_state (handleFiles env apiKey kw b e ne limit S [] fuel))
     = concat (map Files (responses (outcome_state (handleFiles env apiKey kw b e ne limit S [] fuel))))"
  by (rule handleFiles_invariant)
     (simp_all add: init_state_def csv_Write_def files_body_collect files_finish_fields)

lemma handleFiles_last_stdout:
  assumes "handleFiles env apiKey kw b e ne limit S [] fuel = Done st"
  shows "last (stdout st) = MarshalIndent env File_json (concat (map Files (responses st)))"
proof -
  from handleFiles_Done [OF assms] obtain s where "st = files_finish env [] s"
    by blast
  then have "last (stdout st) = MarshalIndent env File_json (allRecords st)"
    by (simp add: files_finish_fields)
  moreover from handleFiles_collect [of env apiKey kw b e ne limit S fuel] assms
  have "allRecords st = concat (map Files (responses st))"
    by simp
  ultimately show ?thesis
    by simp
qed

lemma handleFiles_empty_first_page:
  assumes fuel: "0 < fuel"
    and fetch: "files_fetch env apiKey 0 (files_url kw b e ne (clampPageSize limit) S) = Inr resp"
    and empty: "Files resp = []"
    and create: "out \<noteq> [] \<longrightarrow> os_Create env out = None"
  shows "\<exists>st. handleFiles env apiKey kw b e ne limit S out fuel = Done st \<and>
           requests st = [files_url kw b e ne (clampPageSize limit) S] \<and>
           responses st = [resp] \<and> allRecords st = [] \<and>
           csvfile st = (if out \<noteq> [] then [files_header] else []) \<and>
           last (stdout st) = (if out \<noteq> [] then ''completed, saved to '' @ out @ [CHR 0x0A] else ''null'')"
proof -
  let ?s1 = "(if out \<noteq> [] then csv_Write files_header (init_state S) else init_state S) :: 'a files_state"
  let ?P = "clampPageSize limit"
  from fuel obtain n where n: "fuel = Suc n"
    by (cases fuel) simp_all
  have s1: "requests ?s1 = []" "offset ?s1 = S" "responses ?s1 = []" "allRecords ?s1 = []"
      "csvfile ?s1 = []" "wbuf ?s1 = (if out \<noteq> [] then [files_header] else [])"
    by (simp_all add: init_state_def csv_Write_def)
  from fetch have f: "files_fetch env apiKey (length (requests ?s1)) (files_url kw b e ne ?P (offset ?s1)) = Inr resp"
    by (simp only: s1 list.size)
  have brk: "shouldBreak (length (Files resp)) ?P t S" for t
    using clampPageSize_range [of limit] by (simp add: shouldBreak_def empty)
  have "for_loop (files_body env apiKey kw b e ne ?P out) fuel ?s1
      = Done (files_page env out resp (?s1\<lparr>requests := requests ?s1 @ [files_url kw b e ne ?P (offset ?s1)],
                           responses := responses ?s1 @ [resp]\<rparr>))"
    unfolding n for_loop.simps files_body_Inr [OF f] Let_def
    using brk by (simp add: s1)
  then show ?thesis
    using create
    by (simp add: handleFiles_unfold files_finish_fields files_page_fields empty MarshalIndent_def
          init_state_def csv_Write_def)
qed

lemma clientFilter_filter:
  "ct \<noteq> [] \<Longrightarrow>
   clientFilter env ct = (\<lambda>r. filter (\<lambda>b. EqualFold (hasUnicode env) (Bucket_Type b) ct) (Buckets r))"
  by (simp add: clientFilter_def fun_eq_iff)

lemma buckets_body_collect:
  assumes "allRecords s = concat (map (clientFilter env ct) (responses s))"
  shows "allRecords (step_state (buckets_body env apiKey kw ct P [] ob s))
       = concat (map (clientFilter env ct) (responses (step_state (buckets_body env apiKey kw ct P [] ob s))))"
  using assms
  by (cases "buckets_fetch env apiKey (length (requests s)) (buckets_url kw ct P (offset s))")
     (simp_all add: buckets_body_Inl buckets_body_Inr Let_def buckets_page_fields)

lemma handleBuckets_collect:
  "allRecords (outcome_state (handleBuckets env apiKey kw ct limit S [] ob fuel))
     = concat (map (clientFilter env ct)
         (responses (outcome_state (handleBuckets env apiKey kw ct limit S [] ob fuel))))"
  by (rule handleBuckets_invariant)
     (simp_all add: init_state_def csv_Write_def buckets_body_collect buckets_finish_fields)

lemma buckets_body_rows:
  assumes "out \<noteq> []"
    and "csvfile s @ wbuf s = hdr # concat (map (\<lambda>r. map (buckets_row env ob) (clientFilter env ct r)) (responses s))"
  shows "csvfile (step_state (buckets_body env apiKey kw ct P out ob s))
           @ wbuf (step_state (buckets_body env apiKey kw ct P out ob s))
       = hdr # concat (map (\<lambda>r. map (buckets_row env ob) (clientFilter env ct r))
           (responses (step_state (buckets_body env apiKey kw ct P out ob s))))"
proof (cases "buckets_fetch env apiKey (length (requests s)) (buckets_url kw ct P (offset s))")
  case (Inl m)
  with assms show ?thesis
    by (simp add: buckets_body_Inl)
next
  case (Inr resp)
  have "csvfile s @ wbuf s @ map (buckets_row env ob) (clientFilter env ct resp)
      = (csvfile s @ wbuf s) @ map (buckets_row env ob) (clientFilter env ct resp)"
    by simp
  with assms Inr show ?thesis
    by (simp add: buckets_body_Inr Let_def buckets_page_fields del: append_assoc)
qed

lemma buckets_body_stdout_length:
  assumes "length (stdout s) = length (responses s)"
  shows "length (stdout (step_state (buckets_body env apiKey kw ct P out ob s)))
       = length (responses (step_state (buckets_body env apiKey kw ct P out ob s)))"
  using assms
  by (cases "buckets_fetch env apiKey (length (requests s)) (buckets_url kw ct P (offset s))")
     (simp_all add: buckets_body_Inl buckets_body_Inr Let_def buckets_page_fields)

lemma handleBuckets_rows:
  assumes "handleBuckets env apiKey kw ct limit S out ob fuel = Done st" and "out \<noteq> []"
  shows "csvfile st = buckets_header ob #
           concat (map (\<lambda>r. map (buckets_row env ob) (clientFilter env ct r)) (responses st))"
proof -
  let ?I = "\<lambda>s :: 'a buckets_state. csvfile s @ wbuf s = buckets_header ob #
           concat (map (\<lambda>r. map (buckets_row env ob) (clientFilter env ct r)) (responses s))"
  from handleBuckets_Done [OF assms(1)] assms(2) obtain s where
    loop: "for_loop (buckets_body env apiKey kw ct (clampPageSize limit) out ob) fuel
            (csv_Write (buckets_header ob) (init_state S)) = Done s"
    and st: "st = buckets_finish env out ob s"
    by auto
  have "?I s"
    by (rule for_loop_Done_invariant [OF loop, of ?I])
       (simp_all add: init_state_def csv_Write_def buckets_body_rows [OF assms(2)])
  with st assms(2) show ?thesis
    by (simp add: buckets_finish_fields)
qed

lemma handleBuckets_names:
  assumes "handleBuckets env apiKey kw ct limit S [] True fuel = Done st"
  shows "drop (Suc (length (responses st))) (stdout st)
       = map (\<lambda>b. Bucket_Bucket b @ [CHR 0x0A]) (concat (map (clientFilter env ct) (responses st)))"
proof -
  from handleBuckets_Done [OF assms] obtain s where
    loop: "for_loop (buckets_body env apiKey kw ct (clampPageSize limit) [] True) fuel
            (init_state S) = Done s"
    and st: "st = buckets_finish env [] True s"
    by auto
  have len: "length (stdout s) = length (responses s)"
    by (rule for_loop_Done_invariant [OF loop, of "\<lambda>s. length (stdout s) = length (responses s)"])
       (simp_all add: init_state_def buckets_body_stdout_length)
  have "allRecords s = concat (map (clientFilter env ct) (responses s))"
    by (rule for_loop_Done_invariant [OF loop, of "\<lambda>s. allRecords s = concat (map (clientFilter env ct) (responses s))"])
       (simp_all add: init_state_def buckets_body_collect)
  with st len show ?thesis
    by (simp add: buckets_finish_fields)
qed

lemma all_less_Suc_shift: "(\<forall>k < Suc n. Q k) \<longleftrightarrow> Q 0 \<and> (\<forall>k < n. Q (Suc k))"
  by (auto simp: less_Suc_eq_0_disj)

lemma paged_run_Cons:
  "paged_run fetch len res P c off tot (r # rs) \<longleftrightarrow>
     fetch c off = Inr r \<and>
     (if shouldBreak (len r) P (if tot = - 1 then res r else tot) off then rs = []
      else paged_run fetch len res P (Suc c) (off + P) (if tot = - 1 then res r else tot) rs)"
proof -
  have off: "off + (1 + of_nat k) * P = off + P + of_nat k * P" for k
    by (simp add: algebra_simps)
  show ?thesis
    unfolding paged_run_def length_Cons all_less_Suc_shift
    by (cases "rs = []") (auto simp: off)
qed

lemma for_loop_paged_sound:
  assumes body: "\<And>s. body s =
      (case fetch (length (requests s)) (offset s) of
         Inl m \<Rightarrow> Abort m (ab s)
       | Inr r \<Rightarrow>
           if shouldBreak (len r) P (if total s = - 1 then res r else total s) (offset s)
           then Break (pg r s) else Continue ((pg r s)\<lparr>offset := offset s + P\<rparr>))"
    and pg: "\<And>r s. responses (pg r s) = responses s @ [r]"
      "\<And>r s. length (requests (pg r s)) = Suc (length (requests s))"
      "\<And>r s. total (pg r s) = (if total s = - 1 then res r else total s)"
    and run: "for_loop body fuel s = Done st"
  shows "\<exists>rs. responses st = responses s @ rs \<and> length rs \<le> fuel \<and>
           paged_run fetch len res P (length (requests s)) (offset s) (total s) rs"
  using run
proof (induction fuel arbitrary: s)
  case 0
  then show ?case by simp
next
  case (Suc n)
  show ?case
  proof (cases "fetch (length (requests s)) (offset s)")
    case (Inl m)
    with Suc.prems show ?thesis
      by (simp add: body [of s])
  next
    case (Inr r)
    let ?t = "if total s = - 1 then res r else total s"
    show ?thesis
    proof (cases "shouldBreak (len r) P ?t (offset s)")
      case True
      with Inr Suc.prems have "st = pg r s"
        by (simp add: body [of s])
      with Inr True show ?thesis
        by (intro exI [of _ "[r]"]) (simp add: pg paged_run_Cons)
    next
      case False
      let ?s' = "(pg r s)\<lparr>offset := offset s + P\<rparr>"
      from Inr False Suc.prems have "for_loop body n ?s' = Done st"
        by (simp add: body [of s])
      from Suc.IH [OF this] obtain rs where
        rs: "responses st = responses ?s' @ rs" "length rs \<le> n"
          "paged_run fetch len res P (length (requests ?s')) (offset ?s') (total ?s') rs"
        by blast
      with Inr False show ?thesis
        by (intro exI [of _ "r # rs"]) (simp add: pg paged_run_Cons)
    qed
  qed
qed

lemma for_loop_paged_complete:
  assumes body: "\<And>s. body s =
      (case fetch (length (requests s)) (offset s) of
         Inl m \<Rightarrow> Abort m (ab s)
       | Inr r \<Rightarrow>
           if shouldBreak (len r) P (if total s = - 1 then res r else total s) (offset s)
           then Break (pg r s) else Continue ((pg r s)\<lparr>offset := offset s + P\<rparr>))"
    and pg: "\<And>r s. responses (pg r s) = responses s @ [r]"
      "\<And>r s. length (requests (pg r s)) = Suc (length (requests s))"
      "\<And>r s. total (pg r s) = (if total s = - 1 then res r else total s)"
    and len: "length rs \<le> fuel"
    and run: "paged_run fetch len res P (length (requests s)) (offset s) (total s) rs"
  shows "\<exists>st. for_loop body fuel s = Done st \<and> responses st = responses s @ rs"
  using len run
proof (induction fuel arbitrary: s rs)
  case 0
  then show ?case by (simp add: paged_run_def)
next
  case (Suc n)
  from Suc.prems(2) obtain r rs' where rs: "rs = r # rs'"
    by (cases rs) (simp_all add: paged_run_def)
  let ?t = "if total s = - 1 then res r else total s"
  from Suc.prems(2) have fetch: "fetch (length (requests s)) (offset s) = Inr r"
    and rest: "if shouldBreak (len r) P ?t (offset s) then rs' = []
      else paged_run fetch len res P (Suc (length (requests s))) (offset s + P) ?t rs'"
    unfolding rs paged_run_Cons by simp_all
  show ?case
  proof (cases "shouldBreak (len r) P ?t (offset s)")
    case True
    with fetch rest show ?thesis
      by (simp add: body [of s] rs pg)
  next
    case False
    let ?s' = "(pg r s)\<lparr>offset := offset s + P\<rparr>"
    from False rest have "paged_run fetch len res P (length (requests ?s')) (offset ?s') (total ?s') rs'"
      by (simp add: pg)
    moreover from Suc.prems(1) have "length rs' \<le> n"
      by (simp add: rs)
    ultimately obtain st where "for_loop body n ?s' = Done st" "responses st = responses ?s' @ rs'"
      using Suc.IH by blast
    with fetch False show ?thesis
      by (simp add: body [of s] rs pg)
  qed
qed

lemma for_loop_rule:
  assumes "I s" and "\<And>s. I s \<Longrightarrow> Q s"
    and "\<And>s. I s \<Longrightarrow> (case body s of Abort m s' \<Rightarrow> Q s' | Break s' \<Rightarrow> Q s' | Continue s' \<Rightarrow> I s')"
  shows "Q (outcome_state (for_loop body fuel s))"
  using assms(1)
proof (induction fuel arbitrary: s)
  case 0
  then show ?case by (simp add: assms(2))
next
  case (Suc n)
  from assms(3) [OF Suc.prems] Suc.IH show ?case
    by (cases "body s") simp_all
qed

lemma files_body_shape:
  "files_body env apiKey kw b e ne P out s =
     (case files_fetch env apiKey (length (requests s)) (files_url kw b e ne P (offset s)) of
        Inl m \<Rightarrow> Abort m (s\<lparr>requests := requests s @ [files_url kw b e ne P (offset s)]\<rparr>)
      | Inr r \<Rightarrow>
          if shouldBreak (length (Files r)) P
               (if total s = - 1 then Files_Meta_Results r else total s) (offset s)
          then Break (files_page env out r
                 (s\<lparr>requests := requests s @ [files_url kw b e ne P (offset s)],
                    responses := responses s @ [r]\<rparr>))
          else Continue ((files_page env out r
                 (s\<lparr>requests := requests s @ [files_url kw b e ne P (offset s)],
                    responses := responses s @ [r]\<rparr>))\<lparr>offset := offset s + P\<rparr>))"
  by (cases "files_fetch env apiKey (length (requests s)) (files_url kw b e ne P (offset s))")
     (simp_all add: files_body_Inl files_body_Inr Let_def)

lemma buckets_body_shape:
  "buckets_body env apiKey kw ct P out ob s =
     (case buckets_fetch env apiKey (length (requests s)) (buckets_url kw ct P (offset s)) of
        Inl m \<Rightarrow> Abort m (s\<lparr>requests := requests s @ [buckets_url kw ct P (offset s)]\<rparr>)
      | Inr r \<Rightarrow>
          if shouldBreak (length (Buckets r)) P
               (if total s = - 1 then Buckets_Meta_Results r else total s) (offset s)
          then Break (buckets_page env out ob (clientFilter env ct r) r
                 (s\<lparr>requests := requests s @ [buckets_url kw ct P (offset s)],
                    responses := responses s @ [r]\<rparr>))
          else Continue ((buckets_page env out ob (clientFilter env ct r) r
                 (s\<lparr>requests := requests s @ [buckets_url kw ct P (offset s)],
                    responses := responses s @ [r]\<rparr>))\<lparr>offset := offset s + P\<rparr>))"
  by (cases "buckets_fetch env apiKey (length (requests s)) (buckets_url kw ct P (offset s))")
     (simp_all add: buckets_body_Inl buckets_body_Inr Let_def)

lemma start_state_fields:
  "requests (init_state S) = []" "responses (init_state S) = []"
  "offset (init_state S) = S" "total (init_state S) = - 1"
  "requests (csv_Write row s) = requests s" "responses (csv_Write row s) = responses s"
  "offset (csv_Write row s) = offset s" "total (csv_Write row s) = total s"
  by (simp_all add: init_state_def csv_Write_def)

lemma files_loop_sound:
  assumes "for_loop (files_body env apiKey kw b e ne P out) fuel s = Done st"
  shows "\<exists>rs. responses st = responses s @ rs \<and> length rs \<le> fuel \<and>
     paged_run (\<lambda>n off. files_fetch env apiKey n (files_url kw b e ne P off))
       (\<lambda>r. length (Files r)) Files_Meta_Results P (length (requests s)) (offset s) (total s) rs"
  by (rule for_loop_paged_sound
       [where body = "files_body env apiKey kw b e ne P out"
          and fetch = "\<lambda>n off. files_fetch env apiKey n (files_url kw b e ne P off)"
          and len = "\<lambda>r. length (Files r)" and res = Files_Meta_Results
          and ab = "\<lambda>s. s\<lparr>requests := requests s @ [files_url kw b e ne P (offset s)]\<rparr>"
          and pg = "\<lambda>r s. files_page env out r
                 (s\<lparr>requests := requests s @ [files_url kw b e ne P (offset s)],
                    responses := responses s @ [r]\<rparr>)",
        OF files_body_shape _ _ _ assms])
     (simp_all add: files_page_fields)

lemma files_loop_complete:
  assumes "length rs \<le> fuel"
    and "paged_run (\<lambda>n off. files_fetch env apiKey n (files_url kw b e ne P off))
       (\<lambda>r. length (Files r)) Files_Meta_Results P (length (requests s)) (offset s) (total s) rs"
  shows "\<exists>st. for_loop (files_body env apiKey kw b e ne P out) fuel s = Done st \<and>
     responses st = responses s @ rs"
  by (rule for_loop_paged_complete
       [where body = "files_body env apiKey kw b e ne P out"
          and fetch = "\<lambda>n off. files_fetch env apiKey n (files_url kw b e ne P off)"
          and len = "\<lambda>r. length (Files r)" and res = Files_Meta_Results
          and ab = "\<lambda>s. s\<lparr>requests := requests s @ [files_url kw b e ne P (offset s)]\<rparr>"
          and pg = "\<lambda>r s. files_page env out r
                 (s\<lparr>requests := requests s @ [files_url kw b e ne P (offset s)],
                    responses := responses s @ [r]\<rparr>)",
        OF files_body_shape _ _ _ assms])
     (simp_all add: files_page_fields)

lemma buckets_loop_sound:
  assumes "for_loop (buckets_body env apiKey kw ct P out ob) fuel s = Done st"
  shows "\<exists>rs. responses st = responses s @ rs \<and> length rs \<le> fuel \<and>
     paged_run (\<lambda>n off. buckets_fetch env apiKey n (buckets_url kw ct P off))
       (\<lambda>r. length (Buckets r)) Buckets_Meta_Results P (length (requests s)) (offset s) (total s) rs"
  by (rule for_loop_paged_sound
       [where body = "buckets_body env apiKey kw ct P out ob"
          and fetch = "\<lambda>n off. buckets_fetch env apiKey n (buckets_url kw ct P off)"
          and len = "\<lambda>r. length (Buckets r)" and res = Buckets_Meta_Results
          and ab = "\<lambda>s. s\<lparr>requests := requests s @ [buckets_url kw ct P (offset s)]\<rparr>"
          and pg = "\<lambda>r s. buckets_page env out ob (clientFilter env ct r) r
                 (s\<lparr>requests := requests s @ [buckets_url kw ct P (offset s)],
                    responses := responses s @ [r]\<rparr>)",
        OF buckets_body_shape _ _ _ assms])
     (simp_all add: buckets_page_fields)

lemma buckets_loop_complete:
  assumes "length rs \<le> fuel"
    and "paged_run (\<lambda>n off. buckets_fetch env apiKey n (buckets_url kw ct P off))
       (\<lambda>r. length (Buckets r)) Buckets_Meta_Results P (length (requests s)) (offset s) (total s) rs"
  shows "\<exists>st. for_loop (buckets_body env apiKey kw ct P out ob) fuel s = Done st \<and>
     responses st = responses s @ rs"
  by (rule for_loop_paged_complete
       [where body = "buckets_body env apiKey kw ct P out ob"
          and fetch = "\<lambda>n off. buckets_fetch env apiKey n (buckets_url kw ct P off)"
          and len = "\<lambda>r. length (Buckets r)" and res = Buckets_Meta_Results
          and ab = "\<lambda>s. s\<lparr>requests := requests s @ [buckets_url kw ct P (offset s)]\<rparr>"
          and pg = "\<lambda>r s. buckets_page env out ob (clientFilter env ct r) r
                 (s\<lparr>requests := requests s @ [buckets_url kw ct P (offset s)],
                    responses := responses s @ [r]\<rparr>)",
        OF buckets_body_shape _ _ _ assms])
     (simp_all add: buckets_page_fields)

lemma handleFiles_Done_iff:
  "(\<exists>st. handleFiles env apiKey kw b e ne limit S out fuel = Done st \<and> responses st = rs) \<longleftrightarrow>
     (out \<noteq> [] \<longrightarrow> os_Create env out = None) \<and> length rs \<le> fuel \<and>
     paged_run (\<lambda>n off. files_fetch env apiKey n (files_url kw b e ne (clampPageSize limit) off))
       (\<lambda>r. length (Files r)) Files_Meta_Results (clampPageSize limit) 0 S (- 1) rs"
  (is "?L \<longleftrightarrow> ?R")
proof
  let ?P = "clampPageSize limit"
  let ?s1 = "(if out \<noteq> [] then csv_Write files_header (init_state S) else init_state S) :: 'a files_state"
  have s1: "requests ?s1 = []" "responses ?s1 = []" "offset ?s1 = S" "total ?s1 = - 1"
    by (simp_all add: start_state_fields)
  {
    assume ?L
    then obtain st where st: "handleFiles env apiKey kw b e ne limit S out fuel = Done st"
      and rs: "responses st = rs"
      by blast
    from handleFiles_Done [OF st] obtain s where
      create: "out \<noteq> [] \<longrightarrow> os_Create env out = None"
      and loop: "for_loop (files_body env apiKey kw b e ne ?P out) fuel ?s1 = Done s"
      and fin: "st = files_finish env out s"
      by blast
    from files_loop_sound [OF loop] create rs fin show ?R
      by (auto simp: s1 files_finish_fields)
  }
  {
    assume r: ?R
    then have "paged_run (\<lambda>n off. files_fetch env apiKey n (files_url kw b e ne ?P off))
         (\<lambda>r. length (Files r)) Files_Meta_Results ?P (length (requests ?s1)) (offset ?s1) (total ?s1) rs"
      by (simp add: s1)
    from files_loop_complete [OF _ this, of fuel out] r
    obtain s where "for_loop (files_body env apiKey kw b e ne ?P out) fuel ?s1 = Done s"
      "responses s = responses ?s1 @ rs"
      by blast
    with r show ?L
      by (auto simp: handleFiles_unfold s1 files_finish_fields)
  }
qed

lemma handleBuckets_Done_iff:
  "(\<exists>st. handleBuckets env apiKey kw ct limit S out ob fuel = Done st \<and> responses st = rs) \<longleftrightarrow>
     (out \<noteq> [] \<longrightarrow> os_Create env out = None) \<and> length rs \<le> fuel \<and>
     paged_run (\<lambda>n off. buckets_fetch env apiKey n (buckets_url kw ct (clampPageSize limit) off))
       (\<lambda>r. length (Buckets r)) Buckets_Meta_Results (clampPageSize limit) 0 S (- 1) rs"
  (is "?L \<longleftrightarrow> ?R")
proof
  let ?P = "clampPageSize limit"
  let ?s1 = "(if out \<noteq> [] then csv_Write (buckets_header ob) (init_state S) else init_state S) :: 'a buckets_state"
  have s1: "requests ?s1 = []" "responses ?s1 = []" "offset ?s1 = S" "total ?s1 = - 1"
    by (simp_all add: start_state_fields)
  {
    assume ?L
    then obtain st where st: "handleBuckets env apiKey kw ct limit S out ob fuel = Done st"
      and rs: "responses st = rs"
      by blast
    from handleBuckets_Done [OF st] obtain s where
      create: "out \<noteq> [] \<longrightarrow> os_Create env out = None"
      and loop: "for_loop (buckets_body env apiKey kw ct ?P out ob) fuel ?s1 = Done s"
      and fin: "st = buckets_finish env out ob s"
      by blast
    from buckets_loop_sound [OF loop] create rs fin show ?R
      by (auto simp: s1 buckets_finish_fields)
  }
  {
    assume r: ?R
    then have "paged_run (\<lambda>n off. buckets_fetch env apiKey n (buckets_url kw ct ?P off))
         (\<lambda>r. length (Buckets r)) Buckets_Meta_Results ?P (length (requests ?s1)) (offset ?s1) (total ?s1) rs"
      by (simp add: s1)
    from buckets_loop_complete [OF _ this, of fuel out ob] r
    obtain s where "for_loop (buckets_body env apiKey kw ct ?P out ob) fuel ?s1 = Done s"
      "responses s = responses ?s1 @ rs"
      by blast
    with r show ?L
      by (auto simp: handleBuckets_unfold s1 buckets_finish_fields)
  }
qed

lemma files_loop_requests:
  assumes "requests s = map (\<lambda>k. files_url kw b e ne P (S + of_nat k * P)) [0..<length (requests s)]"
    and "offset s = S + of_nat (length (requests s)) * P"
  shows "requests (outcome_state (for_loop (files_body env apiKey kw b e ne P out) fuel s))
       = map (\<lambda>k. files_url kw b e ne P (S + of_nat k * P))
           [0..<length (requests (outcome_state (for_loop (files_body env apiKey kw b e ne P out) fuel s)))]"
proof (rule for_loop_rule
    [where I = "\<lambda>s. requests s = map (\<lambda>k. files_url kw b e ne P (S + of_nat k * P)) [0..<length (requests s)]
                  \<and> offset s = S + of_nat (length (requests s)) * P"])
  show "requests s = map (\<lambda>k. files_url kw b e ne P (S + of_nat k * P)) [0..<length (requests s)]
      \<and> offset s = S + of_nat (length (requests s)) * P"
    using assms by simp
next
  fix s :: "'a files_state"
  assume I: "requests s = map (\<lambda>k. files_url kw b e ne P (S + of_nat k * P)) [0..<length (requests s)]
      \<and> offset s = S + of_nat (length (requests s)) * P"
  then show "requests s = map (\<lambda>k. files_url kw b e ne P (S + of_nat k * P)) [0..<length (requests s)]"
    by simp
  have ext: "requests s @ [files_url kw b e ne P (offset s)]
      = map (\<lambda>k. files_url kw b e ne P (S + of_nat k * P)) [0..<Suc (length (requests s))]"
    using I by simp
  have off: "offset s + P = S + of_nat (Suc (length (requests s))) * P"
    using I by (simp add: algebra_simps)
  show "case files_body env apiKey kw b e ne P out s of
      Abort m s' \<Rightarrow> requests s' = map (\<lambda>k. files_url kw b e ne P (S + of_nat k * P)) [0..<length (requests s')]
    | Break s' \<Rightarrow> requests s' = map (\<lambda>k. files_url kw b e ne P (S + of_nat k * P)) [0..<length (requests s')]
    | Continue s' \<Rightarrow> requests s' = map (\<lambda>k. files_url kw b e ne P (S + of_nat k * P)) [0..<length (requests s')]
        \<and> offset s' = S + of_nat (length (requests s')) * P"
    unfolding files_body_shape
    by (simp add: files_page_fields ext off split: sum.split del: upt_Suc of_nat_Suc)
qed

lemma buckets_loop_requests:
  assumes "requests s = map (\<lambda>k. buckets_url kw ct P (S + of_nat k * P)) [0..<length (requests s)]"
    and "offset s = S + of_nat (length (requests s)) * P"
  shows "requests (outcome_state (for_loop (buckets_body env apiKey kw ct P out ob) fuel s))
       = map (\<lambda>k. buckets_url kw ct P (S + of_nat k * P))
           [0..<length (requests (outcome_state (for_loop (buckets_body env apiKey kw ct P out ob) fuel s)))]"
proof (rule for_loop_rule
    [where I = "\<lambda>s. requests s = map (\<lambda>k. buckets_url kw ct P (S + of_nat k * P)) [0..<length (requests s)]
                  \<and> offset s = S + of_nat (length (requests s)) * P"])
  show "requests s = map (\<lambda>k. buckets_url kw ct P (S + of_nat k * P)) [0..<length (requests s)]
      \<and> offset s = S + of_nat (length (requests s)) * P"
    using assms by simp
next
  fix s :: "'a buckets_state"
  assume I: "requests s = map (\<lambda>k. buckets_url kw ct P (S + of_nat k * P)) [0..<length (requests s)]
      \<and> offset s = S + of_nat (length (requests s)) * P"
  then show "requests s = map (\<lambda>k. buckets_url kw ct P (S + of_nat k * P)) [0..<length (requests s)]"
    by simp
  have ext: "requests s @ [buckets_url kw ct P (offset s)]
      = map (\<lambda>k. buckets_url kw ct P (S + of_nat k * P)) [0..<Suc (length (requests s))]"
    using I by simp
  have off: "offset s + P = S + of_nat (Suc (length (requests s))) * P"
    using I by (simp add: algebra_simps)
  show "case buckets_body env apiKey kw ct P out ob s of
      Abort m s' \<Rightarrow> requests s' = map (\<lambda>k. buckets_url kw ct P (S + of_nat k * P)) [0..<length (requests s')]
    | Break s' \<Rightarrow> requests s' = map (\<lambda>k. buckets_url kw ct P (S + of_nat k * P)) [0..<length (requests s')]
    | Continue s' \<Rightarrow> requests s' = map (\<lambda>k. buckets_url kw ct P (S + of_nat k * P)) [0..<length (requests s')]
        \<and> offset s' = S + of_nat (length (requests s')) * P"
    unfolding buckets_body_shape
    by (simp add: buckets_page_fields ext off split: sum.split del: upt_Suc of_nat_Suc)
qed

lemma handleFiles_requests:
  "requests (outcome_state (handleFiles env apiKey kw b e ne limit S out fuel))
     = map (\<lambda>k. files_url kw b e ne (clampPageSize limit) (S + of_nat k * clampPageSize limit))
         [0..<length (requests (outcome_state (handleFiles env apiKey kw b e ne limit S out fuel)))]"
proof -
  let ?s1 = "(if out \<noteq> [] then csv_Write files_header (init_state S) else init_state S) :: 'a files_state"
  let ?r = "for_loop (files_body env apiKey kw b e ne (clampPageSize limit) out) fuel ?s1"
  have "requests (outcome_state ?r)
     = map (\<lambda>k. files_url kw b e ne (clampPageSize limit) (S + of_nat k * clampPageSize limit))
         [0..<length (requests (outcome_state ?r))]"
    by (rule files_loop_requests) (simp_all add: start_state_fields)
  then show ?thesis
    by (cases ?r) (simp_all add: handleFiles_unfold files_finish_fields start_state_fields)
qed

lemma handleBuckets_requests:
  "requests (outcome_state (handleBuckets env apiKey kw ct limit S out ob fuel))
     = map (\<lambda>k. buckets_url kw ct (clampPageSize limit) (S + of_nat k * clampPageSize limit))
         [0..<length (requests (outcome_state (handleBuckets env apiKey kw ct limit S out ob fuel)))]"
proof -
  let ?s1 = "(if out \<noteq> [] then csv_Write (buckets_header ob) (init_state S) else init_state S) :: 'a buckets_state"
  let ?r = "for_loop (buckets_body env apiKey kw ct (clampPageSize limit) out ob) fuel ?s1"
  have "requests (outcome_state ?r)
     = map (\<lambda>k. buckets_url kw ct (clampPageSize limit) (S + of_nat k * clampPageSize limit))
         [0..<length (requests (outcome_state ?r))]"
    by (rule buckets_loop_requests) (simp_all add: start_state_fields)
  then show ?thesis
    by (cases ?r) (simp_all add: handleBuckets_unfold buckets_finish_fields start_state_fields)
qed

lemma clampPageSize_id: "1 \<le> sint P \<Longrightarrow> sint P \<le> 1000 \<Longrightarrow> clampPageSize P = P"
  by (simp add: clampPageSize_def)

lemma trackedTotal_zero_head: "trackedTotal (0 # xs) = 0"
  by (simp add: trackedTotal_def foldl_capture_stable)

lemma for_loop_requests_mono:
  assumes "\<And>s. length (requests (step_state (body s))) = Suc (length (requests s))"
  shows "length (requests s) \<le> length (requests (outcome_state (for_loop body fuel s)))"
  by (rule for_loop_invariant [where I = "\<lambda>s'. length (requests s) \<le> length (requests s')"])
     (simp_all add: assms)

lemma for_loop_requests_first:
  assumes "\<And>s. length (requests (step_state (body s))) = Suc (length (requests s))"
  shows "Suc (length (requests s)) \<le> length (requests (outcome_state (for_loop body (Suc n) s)))"
proof (cases "body s")
  case (Continue s')
  with assms [of s] have "length (requests s') = Suc (length (requests s))"
    by simp
  with for_loop_requests_mono [of body s' n, OF assms] Continue show ?thesis
    by simp
qed (use assms [of s] in simp_all)

lemma paged_run_zero_total:
  assumes run: "paged_run fetch len res P 0 S (- 1) rs"
    and first: "fetch 0 S = Inr r0" and zero: "res r0 = 0" and full: "int (len r0) = sint P"
  shows "2 \<le> length rs \<and> int (len (last rs)) < sint P"
proof -
  from run have ne: "rs \<noteq> []"
    and f: "\<forall>k < length rs. fetch (0 + k) (S + of_nat k * P) = Inr (rs ! k)"
    and brk: "\<forall>k < length rs.
        shouldBreak (len (rs ! k)) P
          (foldl (\<lambda>t r. if t = - 1 then r else t) (- 1) (map res (take (Suc k) rs)))
          (S + of_nat k * P)
        \<longleftrightarrow> Suc k = length rs"
    by (simp_all add: paged_run_def)
  from ne obtain r rs' where rs: "rs = r # rs'"
    by (cases rs) simp_all
  from f ne have "fetch (0 + 0) (S + of_nat 0 * P) = Inr (rs ! 0)"
    by blast
  with first have r: "r = r0"
    by (simp add: rs)
  have tot: "foldl (\<lambda>t r. if t = - 1 then r else t) (- 1) (map res (take (Suc k) rs)) = 0" for k
    using trackedTotal_zero_head [of "map res (take k rs')"]
    by (simp add: rs r zero trackedTotal_def)
  have short: "int (len (rs ! k)) < sint P \<longleftrightarrow> Suc k = length rs" if "k < length rs" for k
    using brk that by (simp add: tot shouldBreak_def)
  from short [of 0] full have "rs' \<noteq> []"
    by (auto simp: rs r)
  then have two: "2 \<le> length rs"
    by (cases rs') (simp_all add: rs)
  from ne have "last rs = rs ! (length rs - 1)"
    by (rule last_conv_nth)
  with short [of "length rs - 1"] ne have "int (len (last rs)) < sint P"
    by simp
  with two show ?thesis
    by simp
qed

lemma handleFiles_zero_total_Done:
  assumes "files_fetch env apiKey 0 (files_url kw b e ne (clampPageSize limit) S) = Inr r0"
    and "Files_Meta_Results r0 = 0" and "int (length (Files r0)) = sint (clampPageSize limit)"
    and "handleFiles env apiKey kw b e ne limit S out fuel = Done st"
  shows "2 \<le> length (responses st) \<and> int (length (Files (last (responses st)))) < sint (clampPageSize limit)"
proof -
  from assms(4) have "\<exists>st'. handleFiles env apiKey kw b e ne limit S out fuel = Done st' \<and> responses st' = responses st"
    by blast
  then have "paged_run (\<lambda>n off. files_fetch env apiKey n (files_url kw b e ne (clampPageSize limit) off))
       (\<lambda>r. length (Files r)) Files_Meta_Results (clampPageSize limit) 0 S (- 1) (responses st)"
    unfolding handleFiles_Done_iff by simp
  from paged_run_zero_total [OF this assms(1-3)] show ?thesis .
qed

lemma handleBuckets_zero_total_Done:
  assumes "buckets_fetch env apiKey 0 (buckets_url kw ct (clampPageSize limit) S) = Inr r0"
    and "Buckets_Meta_Results r0 = 0" and "int (length (Buckets r0)) = sint (clampPageSize limit)"
    and "handleBuckets env apiKey kw ct limit S out ob fuel = Done st"
  shows "2 \<le> length (responses st) \<and> int (length (Buckets (last (responses st)))) < sint (clampPageSize limit)"
proof -
  from assms(4) have "\<exists>st'. handleBuckets env apiKey kw ct limit S out ob fuel = Done st' \<and> responses st' = responses st"
    by blast
  then have "paged_run (\<lambda>n off. buckets_fetch env apiKey n (buckets_url kw ct (clampPageSize limit) off))
       (\<lambda>r. length (Buckets r)) Buckets_Meta_Results (clampPageSize limit) 0 S (- 1) (responses st)"
    unfolding handleBuckets_Done_iff by simp
  from paged_run_zero_total [OF this assms(1-3)] show ?thesis .
qed

lemma take_2_map_upt: "2 \<le> n \<Longrightarrow> take 2 (map f [0..<n]) = [f 0, f 1]"
proof -
  assume "2 \<le> n"
  then obtain m where "n = Suc (Suc m)"
    by (cases n; cases "n - 1") simp_all
  then show ?thesis
    by (simp add: upt_rec numeral_2_eq_2)
qed

lemma handleFiles_zero_total_next:
  assumes fetch: "files_fetch env apiKey 0 (files_url kw b e ne (clampPageSize limit) S) = Inr r0"
    and zero: "Files_Meta_Results r0 = 0" and full: "int (length (Files r0)) = sint (clampPageSize limit)"
    and fuel: "2 \<le> fuel" and create: "out \<noteq> [] \<longrightarrow> os_Create env out = None"
  shows "take 2 (requests (outcome_state (handleFiles env apiKey kw b e ne limit S out fuel)))
       = [files_url kw b e ne (clampPageSize limit) S,
          files_url kw b e ne (clampPageSize limit) (S + clampPageSize limit)]"
proof -
  let ?P = "clampPageSize limit"
  let ?body = "files_body env apiKey kw b e ne ?P out"
  let ?s1 = "(if out \<noteq> [] then csv_Write files_header (init_state S) else init_state S) :: 'a files_state"
  let ?R = "handleFiles env apiKey kw b e ne limit S out fuel"
  from fuel obtain n where n: "fuel = Suc (Suc n)"
    by (cases fuel; cases "fuel - 1") simp_all
  have s1: "requests ?s1 = []" "responses ?s1 = []" "offset ?s1 = S" "total ?s1 = - 1"
    by (simp_all add: start_state_fields)
  have grow: "length (requests (step_state (?body s))) = Suc (length (requests s))" for s
    by (simp add: files_body_requests)
  have "\<not> shouldBreak (length (Files r0)) ?P 0 S"
    by (simp add: shouldBreak_def full)
  with fetch obtain s' where step: "?body ?s1 = Continue s'" and len: "length (requests s') = 1"
    by (simp add: files_body_shape s1 zero files_page_fields)
  from for_loop_requests_first [of ?body s' n, OF grow] len
  have "2 \<le> length (requests (outcome_state (for_loop ?body (Suc n) s')))"
    by simp
  with step have "2 \<le> length (requests (outcome_state (for_loop ?body fuel ?s1)))"
    by (simp add: n)
  with create have two: "2 \<le> length (requests (outcome_state ?R))"
    by (cases "for_loop ?body fuel ?s1") (auto simp: handleFiles_unfold files_finish_fields)
  define N where "N = length (requests (outcome_state ?R))"
  have req: "requests (outcome_state ?R)
      = map (\<lambda>k. files_url kw b e ne ?P (S + of_nat k * ?P)) [0..<N]"
    unfolding N_def by (rule handleFiles_requests)
  from two have "2 \<le> N"
    by (simp add: N_def)
  then show ?thesis
    unfolding req by (simp add: take_2_map_upt)
qed

lemma handleBuckets_zero_total_next:
  assumes fetch: "buckets_fetch env apiKey 0 (buckets_url kw ct (clampPageSize limit) S) = Inr r0"
    and zero: "Buckets_Meta_Results r0 = 0" and full: "int (length (Buckets r0)) = sint (clampPageSize limit)"
    and fuel: "2 \<le> fuel" and create: "out \<noteq> [] \<longrightarrow> os_Create env out = None"
  shows "take 2 (requests (outcome_state (handleBuckets env apiKey kw ct limit S out ob fuel)))
       = [buckets_url kw ct (clampPageSize limit) S,
          buckets_url kw ct (clampPageSize limit) (S + clampPageSize limit)]"
proof -
  let ?P = "clampPageSize limit"
  let ?body = "buckets_body env apiKey kw ct ?P out ob"
  let ?s1 = "(if out \<noteq> [] then csv_Write (buckets_header ob) (init_state S) else init_state S) :: 'a buckets_state"
  let ?R = "handleBuckets env apiKey kw ct limit S out ob fuel"
  from fuel obtain n where n: "fuel = Suc (Suc n)"
    by (cases fuel; cases "fuel - 1") simp_all
  have s1: "requests ?s1 = []" "responses ?s1 = []" "offset ?s1 = S" "total ?s1 = - 1"
    by (simp_all add: start_state_fields)
  have grow: "length (requests (step_state (?body s))) = Suc (length (requests s))" for s
    by (simp add: buckets_body_requests)
  have "\<not> shouldBreak (length (Buckets r0)) ?P 0 S"
    by (simp add: shouldBreak_def full)
  with fetch obtain s' where step: "?body ?s1 = Continue s'" and len: "length (requests s') = 1"
    by (simp add: buckets_body_shape s1 zero buckets_page_fields)
  from for_loop_requests_first [of ?body s' n, OF grow] len
  have "2 \<le> length (requests (outcome_state (for_loop ?body (Suc n) s')))"
    by simp
  with step have "2 \<le> length (requests (outcome_state (for_loop ?body fuel ?s1)))"
    by (simp add: n)
  with create have two: "2 \<le> length (requests (outcome_state ?R))"
    by (cases "for_loop ?body fuel ?s1") (auto simp: handleBuckets_unfold buckets_finish_fields)
  define N where "N = length (requests (outcome_state ?R))"
  have req: "requests (outcome_state ?R)
      = map (\<lambda>k. buckets_url kw ct ?P (S + of_nat k * ?P)) [0..<N]"
    unfolding N_def by (rule handleBuckets_requests)
  from two have "2 \<le> N"
    by (simp add: N_def)
  then show ?thesis
    unfolding req by (simp add: take_2_map_upt)
qed

lemma offset_no_overflow:
  fixes S P :: go_int
  assumes "- (2 ^ 63) \<le> sint S + int k * sint P" and "sint S + int k * sint P < 2 ^ 63"
  shows "sint (S + of_nat k * P) = sint S + int k * sint P"
proof -
  have "S + of_nat k * P = word_of_int (sint S + int k * sint P)"
    by simp
  then have "sint (S + of_nat k * P) = signed_take_bit 63 (sint S + int k * sint P)"
    by (simp only: sint_sbintrunc') simp
  also have "\<dots> = sint S + int k * sint P"
    using assms by (simp add: signed_take_bit_int_eq_self)
  finally show ?thesis .
qed

section \<open>The page size\<close>

text \<open>
  C4. For every requested page size \<open>P\<close>, the effective page size is \<open>P\<close> when
  \<open>1 \<le> P \<le> 1000\<close> and 1000 otherwise (zero and negative values included), and it is the
  \<^verbatim>\<open>limit\<close> parameter of every request that \<^verbatim>\<open>handleFiles\<close> and \<^verbatim>\<open>handleBuckets\<close> issue,
  however the run ends.
\<close>

theorem effective_page_size:
  "clampPageSize P = (if 1 \<le> sint P \<and> sint P \<le> 1000 then P else 1000) \<and>
   (\<forall>u \<in> set (requests (outcome_state (handleFiles env apiKey kw b e ne P S out fuel))).
      query u ''limit'' = Some (sprintf_d (sint (clampPageSize P)))) \<and>
   (\<forall>u \<in> set (requests (outcome_state (handleBuckets env apiKey kw ct P S out ob fuel))).
      query u ''limit'' = Some (sprintf_d (sint (clampPageSize P))))"
proof (intro conjI)
  show "clampPageSize P = (if 1 \<le> sint P \<and> sint P \<le> 1000 then P else 1000)"
    by (auto simp: clampPageSize_def)
  show "\<forall>u \<in> set (requests (outcome_state (handleFiles env apiKey kw b e ne P S out fuel))).
      query u ''limit'' = Some (sprintf_d (sint (clampPageSize P)))"
    by (rule handleFiles_invariant)
       (simp_all add: init_state_def csv_Write_def files_body_requests files_finish_fields files_url_limit)
  show "\<forall>u \<in> set (requests (outcome_state (handleBuckets env apiKey kw ct P S out ob fuel))).
      query u ''limit'' = Some (sprintf_d (sint (clampPageSize P)))"
    by (rule handleBuckets_invariant)
       (simp_all add: init_state_def csv_Write_def buckets_body_requests buckets_finish_fields buckets_url_limit)
qed

theorem effective_page_size_witness:
  "clampPageSize 0 = 1000 \<and>
   query (hd (requests (outcome_state
     (handleFiles (table_env two_file_pages []) ''key'' ''kw'' [] [] [] 0 0 [] 3)))) ''limit''
     = Some ''1000'' \<and>
   query (hd (requests (outcome_state
     (handleBuckets (table_env [] five_buckets) ''key'' [] ''aws'' 0 0 [] True 3)))) ''limit''
     = Some ''1000''"
proof -
  let ?rf = "requests (outcome_state
     (handleFiles (table_env two_file_pages []) ''key'' ''kw'' [] [] [] 0 0 [] 3))"
  let ?rb = "requests (outcome_state
     (handleBuckets (table_env [] five_buckets) ''key'' [] ''aws'' 0 0 [] True 3))"
  note inst_f = effective_page_size [where P = 0 and env = "table_env two_file_pages []"
      and apiKey = "''key''" and kw = "''kw''" and b = "[]" and e = "[]" and ne = "[]"
      and S = 0 and out = "[]" and fuel = 3]
  note inst_b = effective_page_size [where P = 0 and env = "table_env [] five_buckets"
      and apiKey = "''key''" and kw = "[]" and ct = "''aws''" and S = 0 and out = "[]"
      and ob = True and fuel = 3]
  have c: "clampPageSize (0 :: go_int) = 1000"
    using inst_f by simp
  have d: "sprintf_d (sint (1000 :: go_int)) = ''1000''"
    by code_simp
  have "length ?rf = 1"
    by code_simp
  then have "hd ?rf \<in> set ?rf"
    by (cases ?rf) simp_all
  with inst_f have f: "query (hd ?rf) ''limit'' = Some ''1000''"
    unfolding c d by blast
  have "length ?rb = 1"
    by code_simp
  then have "hd ?rb \<in> set ?rb"
    by (cases ?rb) simp_all
  with inst_b have g: "query (hd ?rb) ''limit'' = Some ''1000''"
    unfolding c d by blast
  from c f g show ?thesis
    by simp
qed

section \<open>The stats command\<close>

text \<open>
  C8. When the request of the stats command succeeds (status 200 and the body read), the
  bytes of the body are what the command emits, unchanged: with no output path they are the
  one write to standard output and the disk is untouched; with an output path, when the
  write succeeds, the named file holds exactly these bytes.
\<close>

theorem stats_verbatim:
  assumes "client env 0
             \<lparr>Method = ''GET'', URL = \<lparr>endpoint = baseURL @ ''/stats'', query = Map.empty\<rparr>,
              Authorization = ''Bearer '' @ apiKey\<rparr>
           = Response 200 (Inr data)"
  shows "(output = [] \<longrightarrow>
            handleStats env disk0 apiKey output = Done \<lparr>stats_stdout = [data], disk = disk0\<rparr>) \<and>
         (output \<noteq> [] \<longrightarrow> os_WriteFile env output data = None \<longrightarrow>
            handleStats env disk0 apiKey output
              = Done \<lparr>stats_stdout = [''stats saved to '' @ output @ [CHR 0x0A]],
                       disk = disk0(output \<mapsto> data)\<rparr>)"
  using assms by (simp add: handleStats_def doGet_def Let_def)

theorem stats_verbatim_witness:
  "handleStats (table_env [] []) Map.empty ''key'' []
     = Done \<lparr>stats_stdout = [''stats-body''], disk = Map.empty\<rparr> \<and>
   disk (outcome_state (handleStats (table_env [] []) Map.empty ''key'' ''stats.json'')) ''stats.json''
     = Some ''stats-body''"
proof -
  have req: "client (table_env [] []) 0
             \<lparr>Method = ''GET'', URL = \<lparr>endpoint = baseURL @ ''/stats'', query = Map.empty\<rparr>,
              Authorization = ''Bearer '' @ ''key''\<rparr>
           = Response 200 (Inr ''stats-body'')"
    by (simp add: table_env_def table_client_def)
  have wr: "os_WriteFile (table_env [] []) ''stats.json'' ''stats-body'' = None"
    by (simp add: table_env_def)
  from stats_verbatim [OF req, of "[]" Map.empty]
  have a: "handleStats (table_env [] []) Map.empty ''key'' []
     = Done \<lparr>stats_stdout = [''stats-body''], disk = Map.empty\<rparr>"
    by simp
  from stats_verbatim [OF req, of "''stats.json''" Map.empty] wr
  have "handleStats (table_env [] []) Map.empty ''key'' ''stats.json''
     = Done \<lparr>stats_stdout = [''stats saved to '' @ ''stats.json'' @ [CHR 0x0A]],
              disk = Map.empty(''stats.json'' \<mapsto> ''stats-body'')\<rparr>"
    by simp
  then have b: "disk (outcome_state (handleStats (table_env [] []) Map.empty ''key'' ''stats.json''))
      ''stats.json'' = Some ''stats-body''"
    by simp
  from a b show ?thesis
    by simp
qed

section \<open>The tracked total\<close>

text \<open>
  C1, as the code has it. The first page's envelope does not leave the sentinel in place
  when it reports zero: \<^verbatim>\<open>total\<close> is overwritten with whatever the envelope reports. Here
  the first page of files reports 0, and after the first pass through the loop body
  \<^verbatim>\<open>total\<close> is 0, not -1 (and the loop goes on).
\<close>

theorem total_capture_counterexample:
  "Files_Meta_Results (hd (responses (step_state
      (files_body (table_env two_file_pages []) ''key'' ''kw'' [] [] [] 2 [] (init_state 0))))) = 0 \<and>
   total (step_state
      (files_body (table_env two_file_pages []) ''key'' ''kw'' [] [] [] 2 [] (init_state 0))) = 0 \<and>
   total (step_state
      (files_body (table_env two_file_pages []) ''key'' ''kw'' [] [] [] 2 [] (init_state 0))) \<noteq> - 1"
  by code_simp

text \<open>
  C1, amended. However a run of \<^verbatim>\<open>handleFiles\<close> or \<^verbatim>\<open>handleBuckets\<close> ends, the tracked
  total is the sentinel -1 passed through \<^verbatim>\<open>if total == -1 { total = reported }\<close> for each
  decoded envelope in turn: it is -1 while no envelope was decoded, and once the first
  envelope reports anything other than -1 it is that value for the rest of the run (0 when
  the envelope reports zero). A tracked total that is not positive is unknown to the stop
  test, which is then the short-page test alone.
\<close>

theorem total_capture:
  "(let st = outcome_state (handleFiles env apiKey kw b e ne limit S out fuel);
        results = map Files_Meta_Results (responses st)
    in total st = trackedTotal results \<and>
       (results = [] \<longrightarrow> total st = - 1) \<and>
       (results \<noteq> [] \<longrightarrow> hd results \<noteq> - 1 \<longrightarrow> total st = hd results)) \<and>
   (let st = outcome_state (handleBuckets env apiKey kw ct limit S out ob fuel);
        results = map Buckets_Meta_Results (responses st)
    in total st = trackedTotal results \<and>
       (results = [] \<longrightarrow> total st = - 1) \<and>
       (results \<noteq> [] \<longrightarrow> hd results \<noteq> - 1 \<longrightarrow> total st = hd results)) \<and>
   (sint tot \<le> 0 \<longrightarrow> shouldBreak n P tot off = (int n < sint P))"
proof -
  have *: "t = trackedTotal rs \<Longrightarrow>
      t = trackedTotal rs \<and> (rs = [] \<longrightarrow> t = - 1) \<and> (rs \<noteq> [] \<longrightarrow> hd rs \<noteq> - 1 \<longrightarrow> t = hd rs)"
    for t rs
    by (cases rs) (simp_all add: trackedTotal_Cons, simp add: trackedTotal_def)
  have f: "let st = outcome_state (handleFiles env apiKey kw b e ne limit S out fuel);
        results = map Files_Meta_Results (responses st)
    in total st = trackedTotal results \<and>
       (results = [] \<longrightarrow> total st = - 1) \<and>
       (results \<noteq> [] \<longrightarrow> hd results \<noteq> - 1 \<longrightarrow> total st = hd results)"
    unfolding Let_def by (rule * [OF handleFiles_total])
  have g: "let st = outcome_state (handleBuckets env apiKey kw ct limit S out ob fuel);
        results = map Buckets_Meta_Results (responses st)
    in total st = trackedTotal results \<and>
       (results = [] \<longrightarrow> total st = - 1) \<and>
       (results \<noteq> [] \<longrightarrow> hd results \<noteq> - 1 \<longrightarrow> total st = hd results)"
    unfolding Let_def by (rule * [OF handleBuckets_total])
  have h: "sint tot \<le> 0 \<longrightarrow> shouldBreak n P tot off = (int n < sint P)"
    by (simp add: shouldBreak_unknown)
  show ?thesis
    by (rule conjI [OF f conjI [OF g h]])
qed

theorem total_capture_witness:
  "total (outcome_state (handleFiles (table_env two_file_pages five_buckets)
      ''key'' ''kw'' [] [] [] 2 0 [] 5)) = 0 \<and>
   total (outcome_state (handleBuckets (table_env two_file_pages five_buckets)
      ''key'' [] ''aws'' 0 0 [] True 5)) = 5 \<and>
   shouldBreak 2 2 0 0 = False"
proof -
  let ?f = "outcome_state (handleFiles (table_env two_file_pages five_buckets)
      ''key'' ''kw'' [] [] [] 2 0 [] 5)"
  let ?b = "outcome_state (handleBuckets (table_env two_file_pages five_buckets)
      ''key'' [] ''aws'' 0 0 [] True 5)"
  note inst = total_capture [where env = "table_env two_file_pages five_buckets"
      and apiKey = "''key''" and kw = "''kw''" and b = "[]" and e = "[]" and ne = "[]"
      and limit = 2 and S = 0 and out = "[]" and fuel = 5 and tot = 0 and n = 2 and P = 2
      and off = 0, unfolded Let_def]
  note inst' = total_capture [where env = "table_env two_file_pages five_buckets"
      and apiKey = "''key''" and kw = "[]" and ct = "''aws''"
      and limit = 0 and S = 0 and out = "[]" and ob = True and fuel = 5, unfolded Let_def]
  have f: "map Files_Meta_Results (responses ?f) \<noteq> []" "hd (map Files_Meta_Results (responses ?f)) = 0"
    by code_simp+
  have b: "map Buckets_Meta_Results (responses ?b) \<noteq> []" "hd (map Buckets_Meta_Results (responses ?b)) = 5"
    by code_simp+
  have fne: "hd (map Files_Meta_Results (responses ?f)) \<noteq> - 1"
    unfolding f(2) by simp
  have bne: "hd (map Buckets_Meta_Results (responses ?b)) \<noteq> - 1"
    unfolding b(2) by simp
  have "total ?f = hd (map Files_Meta_Results (responses ?f))"
    by (rule inst [THEN conjunct1, THEN conjunct2, THEN conjunct2, rule_format, OF f(1) fne])
  then have 1: "total ?f = 0"
    unfolding f(2) .
  have "total ?b = hd (map Buckets_Meta_Results (responses ?b))"
    by (rule inst' [THEN conjunct2, THEN conjunct1, THEN conjunct2, THEN conjunct2, rule_format,
          OF b(1) bne])
  then have 2: "total ?b = 5"
    unfolding b(2) .
  from inst [THEN conjunct2, THEN conjunct2] have 3: "shouldBreak 2 2 0 0 = False"
    by simp
  from 1 2 3 show ?thesis
    by simp
qed

section \<open>The progress line\<close>

text \<open>
  C9, as the code has it. The progress text is not in English: for three records forwarded
  and a reported total of five the command writes a carriage return, the UTF-8 bytes of
  three Chinese characters, \<^verbatim>\<open> 3 / 5 \<close> and the bytes of a fourth character.
\<close>

theorem progress_text_counterexample:
  "last (stdout (step_state (buckets_body (table_env [] five_buckets) ''key'' [] ''aws'' 1000 [] True
      (init_state 0))))
     = [CHR 0x0D, CHR 0xE5, CHR 0xB7, CHR 0xB2, CHR 0xE8, CHR 0x8E, CHR 0xB7, CHR 0xE5, CHR 0x8F,
        CHR 0x96] @ '' 3 / 5 '' @ [CHR 0xE6, CHR 0x9D, CHR 0xA1] \<and>
   last (stdout (step_state (buckets_body (table_env [] five_buckets) ''key'' [] ''aws'' 1000 [] True
      (init_state 0)))) \<noteq> ''fetched 3 / 5 records'' \<and>
   last (stdout (step_state (buckets_body (table_env [] five_buckets) ''key'' [] ''aws'' 1000 [] True
      (init_state 0)))) \<noteq> CHR 0x0D # ''fetched 3 / 5 records''"
  by code_simp

text \<open>
  C9, amended. After each decoded page the loop body appends one write to standard output,
  \<open>progress X Y\<close>, where \<open>X\<close> is the counter \<^verbatim>\<open>fetched\<close> after adding the number of records
  forwarded to the sink (for buckets the records left by the client-side filter) and \<open>Y\<close>
  the tracked total. \<open>X\<close> is the count of all records forwarded so far. The text is a
  carriage return, the bytes E5 B7 B2 E8 8E B7 E5 8F 96, a space, \<open>X\<close>, then \<^verbatim>\<open> / Y\<close> when
  \<open>Y\<close> is positive, a space and the bytes E6 9D A1. It starts with the carriage return and
  holds no line feed, so it overwrites the line.
\<close>

theorem progress_line:
  "(files_fetch env apiKey (length (requests sf)) (files_url kw b e ne P (offset sf)) = Inr fresp \<longrightarrow>
      (let s' = step_state (files_body env apiKey kw b e ne P out sf)
       in fetched s' = fetched sf + of_nat (length (Files fresp)) \<and>
          stdout s' = stdout sf @ [progress (fetched s') (total s')])) \<and>
   (buckets_fetch env apiKey (length (requests sb)) (buckets_url kw ct P (offset sb)) = Inr bresp \<longrightarrow>
      (let s' = step_state (buckets_body env apiKey kw ct P out ob sb)
       in fetched s' = fetched sb + of_nat (length (clientFilter env ct bresp)) \<and>
          stdout s' = stdout sb @ [progress (fetched s') (total s')])) \<and>
   fetched (outcome_state (handleFiles env apiKey kw b e ne limit S out fuel))
     = of_nat (length (concat (map Files
         (responses (outcome_state (handleFiles env apiKey kw b e ne limit S out fuel)))))) \<and>
   fetched (outcome_state (handleBuckets env apiKey kw ct limit S out ob fuel))
     = of_nat (length (concat (map (clientFilter env ct)
         (responses (outcome_state (handleBuckets env apiKey kw ct limit S out ob fuel)))))) \<and>
   progress X Y =
     (if 0 < sint Y
      then [CHR 0x0D, CHR 0xE5, CHR 0xB7, CHR 0xB2, CHR 0xE8, CHR 0x8E, CHR 0xB7, CHR 0xE5, CHR 0x8F,
            CHR 0x96] @ '' '' @ sprintf_d (sint X) @ '' / '' @ sprintf_d (sint Y) @ '' '' @
           [CHR 0xE6, CHR 0x9D, CHR 0xA1]
      else [CHR 0x0D, CHR 0xE5, CHR 0xB7, CHR 0xB2, CHR 0xE8, CHR 0x8E, CHR 0xB7, CHR 0xE5, CHR 0x8F,
            CHR 0x96] @ '' '' @ sprintf_d (sint X) @ '' '' @ [CHR 0xE6, CHR 0x9D, CHR 0xA1]) \<and>
   hd (progress X Y) = CHR 0x0D \<and> CHR 0x0A \<notin> set (progress X Y)"
proof -
  have p: "progress X Y =
     (if 0 < sint Y
      then [CHR 0x0D, CHR 0xE5, CHR 0xB7, CHR 0xB2, CHR 0xE8, CHR 0x8E, CHR 0xB7, CHR 0xE5, CHR 0x8F,
            CHR 0x96] @ '' '' @ sprintf_d (sint X) @ '' / '' @ sprintf_d (sint Y) @ '' '' @
           [CHR 0xE6, CHR 0x9D, CHR 0xA1]
      else [CHR 0x0D, CHR 0xE5, CHR 0xB7, CHR 0xB2, CHR 0xE8, CHR 0x8E, CHR 0xB7, CHR 0xE5, CHR 0x8F,
            CHR 0x96] @ '' '' @ sprintf_d (sint X) @ '' '' @ [CHR 0xE6, CHR 0x9D, CHR 0xA1])"
    by (simp add: progress_def progress_prefix_def progress_suffix_def)
  show ?thesis
  proof (intro conjI impI)
    show "progress X Y =
     (if 0 < sint Y
      then [CHR 0x0D, CHR 0xE5, CHR 0xB7, CHR 0xB2, CHR 0xE8, CHR 0x8E, CHR 0xB7, CHR 0xE5, CHR 0x8F,
            CHR 0x96] @ '' '' @ sprintf_d (sint X) @ '' / '' @ sprintf_d (sint Y) @ '' '' @
           [CHR 0xE6, CHR 0x9D, CHR 0xA1]
      else [CHR 0x0D, CHR 0xE5, CHR 0xB7, CHR 0xB2, CHR 0xE8, CHR 0x8E, CHR 0xB7, CHR 0xE5, CHR 0x8F,
            CHR 0x96] @ '' '' @ sprintf_d (sint X) @ '' '' @ [CHR 0xE6, CHR 0x9D, CHR 0xA1])"
      by (rule p)
  qed (rule files_body_progress buckets_body_progress handleFiles_fetched handleBuckets_fetched
         progress_shape [THEN conjunct1] progress_shape [THEN conjunct2]; assumption?)+
qed

theorem progress_line_witness:
  "stdout (step_state (files_body (table_env two_file_pages five_buckets)
      ''key'' ''kw'' [] [] [] 2 [] (init_state 0))) = [progress 2 0] \<and>
   stdout (step_state (buckets_body (table_env two_file_pages five_buckets)
      ''key'' [] ''aws'' 1000 [] True (init_state 0))) = [progress 3 5]"
proof -
  let ?env = "table_env two_file_pages five_buckets"
  let ?sf = "init_state 0 :: string files_state"
  let ?sb = "init_state 0 :: string buckets_state"
  let ?f = "step_state (files_body ?env ''key'' ''kw'' [] [] [] 2 [] ?sf)"
  let ?b = "step_state (buckets_body ?env ''key'' [] ''aws'' 1000 [] True ?sb)"
  have ff: "files_fetch ?env ''key'' (length (requests ?sf)) (files_url ''kw'' [] [] [] 2 (offset ?sf))
      = Inr (snd (hd two_file_pages))"
    by code_simp
  have bf: "buckets_fetch ?env ''key'' (length (requests ?sb)) (buckets_url [] ''aws'' 1000 (offset ?sb))
      = Inr (snd (hd five_buckets))"
    by code_simp
  have tf: "total ?f = 0" and tb: "total ?b = 5"
    by code_simp+
  have i0: "fetched ?sf = 0" "stdout ?sf = []" "fetched ?sb = 0" "stdout ?sb = []"
    by (simp_all add: init_state_def)
  have lf: "length (Files (snd (hd two_file_pages))) = 2"
    and lb: "length (clientFilter ?env ''aws'' (snd (hd five_buckets))) = 3"
    by code_simp+
  from progress_line [where env = ?env and apiKey = "''key''" and kw = "''kw''" and b = "[]"
      and e = "[]" and ne = "[]" and P = 2 and out = "[]" and sf = ?sf
      and fresp = "snd (hd two_file_pages)", unfolded Let_def] ff
  have "fetched ?f = fetched ?sf + of_nat (length (Files (snd (hd two_file_pages))))"
    and "stdout ?f = stdout ?sf @ [progress (fetched ?f) (total ?f)]"
    by blast+
  then have 1: "stdout ?f = [progress 2 0]"
    by (simp add: tf lf i0)
  from progress_line [where env = ?env and apiKey = "''key''" and kw = "[]" and ct = "''aws''"
      and P = 1000 and out = "[]" and ob = True and sb = ?sb
      and bresp = "snd (hd five_buckets)", unfolded Let_def] bf
  have "fetched ?b = fetched ?sb + of_nat (length (clientFilter ?env ''aws'' (snd (hd five_buckets))))"
    and "stdout ?b = stdout ?sb @ [progress (fetched ?b) (total ?b)]"
    by blast+
  then have 2: "stdout ?b = [progress 3 5]"
    by (simp add: tb lb i0)
  from 1 2 show ?thesis
    by simp
qed

section \<open>CSV rows and JSON objects\<close>




section \<open>The stop test of the buckets command\<close>

text \<open>
  C10, as the code has it. A full page of buckets, all removed by the client-side filter,
  does end the run when the envelope's total is reached: page size 2, two azure buckets,
  filter \<^verbatim>\<open>aws\<close>, reported total 2.
\<close>

theorem filtered_full_page_counterexample:
  "length (Buckets (hd (responses (step_state (buckets_body (table_env [] azure_pages_total) ''key'' [] ''aws'' 2 [] True (init_state 0)))))) = 2 \<and>
   length (clientFilter (table_env [] azure_pages_total) ''aws'' (hd (responses (step_state (buckets_body (table_env [] azure_pages_total) ''key'' [] ''aws'' 2 [] True (init_state 0)))))) = 0 \<and>
   is_Break (buckets_body (table_env [] azure_pages_total) ''key'' [] ''aws'' 2 [] True (init_state 0)) \<and>
   is_Done (handleBuckets (table_env [] azure_pages_total) ''key'' [] ''aws'' 2 0 [] True 5) \<and>
   length (requests (outcome_state (handleBuckets (table_env [] azure_pages_total) ''key'' [] ''aws'' 2 0 [] True 5))) = 1"
  by code_simp

text \<open>
  C10, amended. The stop test of \<^verbatim>\<open>handleBuckets\<close> uses the number of records in the decoded
  page, before the client-side filter. So a full page whose records are all removed by the
  filter does not end the loop unless a known positive total satisfies
  \<^verbatim>\<open>offset + pageSize >= total\<close>: the loop advances the offset by the page size, although
  nothing was forwarded to the sink and \<^verbatim>\<open>fetched\<close> did not grow.
\<close>

theorem buckets_break_on_raw_count:
  assumes "buckets_fetch env apiKey (length (requests s)) (buckets_url kw ct P (offset s)) = Inr resp"
  shows "(is_Break (buckets_body env apiKey kw ct P out ob s) \<longleftrightarrow>
            shouldBreak (length (Buckets resp)) P
              (if total s = - 1 then Buckets_Meta_Results resp else total s) (offset s)) \<and>
         (clientFilter env ct resp = [] \<longrightarrow> sint P \<le> int (length (Buckets resp)) \<longrightarrow>
          \<not> (0 < sint (if total s = - 1 then Buckets_Meta_Results resp else total s) \<and>
             sint (if total s = - 1 then Buckets_Meta_Results resp else total s) \<le> sint (offset s + P)) \<longrightarrow>
            is_Continue (buckets_body env apiKey kw ct P out ob s) \<and>
            offset (step_state (buckets_body env apiKey kw ct P out ob s)) = offset s + P \<and>
            allRecords (step_state (buckets_body env apiKey kw ct P out ob s)) = allRecords s \<and>
            csvfile (step_state (buckets_body env apiKey kw ct P out ob s))
              = (if out \<noteq> [] then csvfile s @ wbuf s else csvfile s) \<and>
            fetched (step_state (buckets_body env apiKey kw ct P out ob s)) = fetched s)"
  using assms
  by (simp add: buckets_body_Inr Let_def buckets_page_fields shouldBreak_def)

theorem buckets_break_on_raw_count_witness:
  "is_Continue (buckets_body (table_env [] azure_pages) ''key'' [] ''aws'' 2 [] True (init_state 0)) \<and>
   offset (step_state
     (buckets_body (table_env [] azure_pages) ''key'' [] ''aws'' 2 [] True (init_state 0))) = 2 \<and>
   allRecords (step_state
     (buckets_body (table_env [] azure_pages) ''key'' [] ''aws'' 2 [] True (init_state 0))) = []"
proof -
  let ?env = "table_env [] azure_pages"
  let ?s = "init_state 0 :: string buckets_state"
  let ?r = "snd (hd azure_pages)"
  have fetch: "buckets_fetch ?env ''key'' (length (requests ?s)) (buckets_url [] ''aws'' 2 (offset ?s))
      = Inr ?r"
    by code_simp
  have none: "clientFilter ?env ''aws'' ?r = []"
    by code_simp
  have full: "sint (2 :: go_int) \<le> int (length (Buckets ?r))"
    by code_simp
  have unknown: "\<not> (0 < sint (if total ?s = - 1 then Buckets_Meta_Results ?r else total ?s) \<and>
      sint (if total ?s = - 1 then Buckets_Meta_Results ?r else total ?s) \<le> sint (offset ?s + 2))"
    by code_simp
  from buckets_break_on_raw_count [OF fetch, of "[]" True] none full unknown
  have "is_Continue (buckets_body ?env ''key'' [] ''aws'' 2 [] True ?s)"
    and "offset (step_state (buckets_body ?env ''key'' [] ''aws'' 2 [] True ?s)) = offset ?s + 2"
    and "allRecords (step_state (buckets_body ?env ''key'' [] ''aws'' 2 [] True ?s)) = allRecords ?s"
    by blast+
  then show ?thesis
    by (simp add: init_state_def)
qed

section \<open>The JSON output of the files command\<close>

text \<open>
  C7, as the code has it. With no output path and an empty first page the run ends after
  that page, and the final write to standard output is \<^verbatim>\<open>null\<close>, which is not a JSON
  array: \<^verbatim>\<open>allFiles\<close> is still the nil slice.
\<close>

theorem json_output_counterexample:
  "is_Done (handleFiles (table_env empty_file_page []) ''key'' ''kw'' [] [] [] 10 0 [] 3) \<and>
   last (stdout (outcome_state (handleFiles (table_env empty_file_page []) ''key'' ''kw'' [] [] [] 10 0 [] 3)))
     = ''null'' \<and>
   hd (last (stdout (outcome_state (handleFiles (table_env empty_file_page []) ''key'' ''kw'' [] [] [] 10 0 [] 3))))
     \<noteq> CHR ''[''"
  by code_simp

text \<open>
  C7, amended. With no output path, the records collected by \<^verbatim>\<open>handleFiles\<close> are the records
  of the decoded pages, in arrival order across pages, and when the run completes its final
  write to standard output is \<^verbatim>\<open>json.MarshalIndent\<close> of them: for at least one record an
  array, opened by a bracket and a line feed, with one indented object per record separated
  by commas, closed by a line feed and a bracket; for no record the text \<^verbatim>\<open>null\<close>. When the
  first page decodes to zero records the run completes after that one request, with no
  record collected and \<^verbatim>\<open>null\<close> as its final write.
\<close>

theorem json_output:
  "allRecords (outcome_state (handleFiles env apiKey kw b e ne limit S [] fuel))
     = concat (map Files (responses (outcome_state (handleFiles env apiKey kw b e ne limit S [] fuel)))) \<and>
   (handleFiles env apiKey kw b e ne limit S [] fuel = Done st \<longrightarrow>
      last (stdout st) = MarshalIndent env File_json (concat (map Files (responses st)))) \<and>
   MarshalIndent env File_json [] = ''null'' \<and>
   (fs \<noteq> [] \<longrightarrow>
      MarshalIndent env File_json fs
        = ''['' @ [CHR 0x0A] @
          join ('','' @ [CHR 0x0A]) (map (\<lambda>f. ''  '' @ Marshal_struct env (File_json f)) fs) @
          [CHR 0x0A] @ '']'') \<and>
   (0 < fuel \<longrightarrow>
    files_fetch env apiKey 0 (files_url kw b e ne (clampPageSize limit) S) = Inr resp \<longrightarrow>
    Files resp = [] \<longrightarrow>
      (\<exists>st'. handleFiles env apiKey kw b e ne limit S [] fuel = Done st' \<and>
         requests st' = [files_url kw b e ne (clampPageSize limit) S] \<and>
         responses st' = [resp] \<and> allRecords st' = [] \<and> last (stdout st') = ''null''))"
proof (intro conjI impI)
  show "MarshalIndent env File_json [] = ''null''"
    by (simp add: MarshalIndent_def)
  show "MarshalIndent env File_json fs
        = ''['' @ [CHR 0x0A] @
          join ('','' @ [CHR 0x0A]) (map (\<lambda>f. ''  '' @ Marshal_struct env (File_json f)) fs) @
          [CHR 0x0A] @ '']''" if "fs \<noteq> []"
    using that by (cases fs) (simp_all add: MarshalIndent_def)
  show "\<exists>st'. handleFiles env apiKey kw b e ne limit S [] fuel = Done st' \<and>
         requests st' = [files_url kw b e ne (clampPageSize limit) S] \<and>
         responses st' = [resp] \<and> allRecords st' = [] \<and> last (stdout st') = ''null''"
    if "0 < fuel" "files_fetch env apiKey 0 (files_url kw b e ne (clampPageSize limit) S) = Inr resp"
      "Files resp = []"
    using handleFiles_empty_first_page [OF that, of "[]"] by auto
qed (rule handleFiles_collect handleFiles_last_stdout; assumption?)+

theorem json_output_witness:
  "last (stdout (outcome_state
     (handleFiles (table_env two_file_pages []) ''key'' ''kw'' [] [] [] 2 0 [] 3)))
     = MarshalIndent (table_env two_file_pages []) File_json
         [example_file ''a'', example_file ''b'', example_file ''c''] \<and>
   hd (MarshalIndent (table_env two_file_pages []) File_json
         [example_file ''a'', example_file ''b'', example_file ''c'']) = CHR ''['' \<and>
   is_Done (handleFiles (table_env empty_file_page []) ''key'' ''kw'' [] [] [] 10 0 [] 3) \<and>
   last (stdout (outcome_state
     (handleFiles (table_env empty_file_page []) ''key'' ''kw'' [] [] [] 10 0 [] 3))) = ''null''"
proof -
  let ?env = "table_env two_file_pages []"
  let ?r = "handleFiles ?env ''key'' ''kw'' [] [] [] 2 0 [] 3"
  let ?fs = "[example_file ''a'', example_file ''b'', example_file ''c'']"
  let ?empty_env = "table_env empty_file_page []"
  let ?empty_run = "handleFiles ?empty_env ''key'' ''kw'' [] [] [] 10 0 [] 3"
  have "is_Done ?r"
    by code_simp
  then have dn: "?r = Done (outcome_state ?r)"
    by (rule is_Done_eq)
  have pages: "concat (map Files (responses (outcome_state ?r))) = ?fs"
    by code_simp
  have "last (stdout (outcome_state ?r))
      = MarshalIndent ?env File_json (concat (map Files (responses (outcome_state ?r))))"
    by (rule json_output [THEN conjunct2, THEN conjunct1, rule_format, OF dn])
  then have 1: "last (stdout (outcome_state ?r)) = MarshalIndent ?env File_json ?fs"
    unfolding pages .
  have "?fs \<noteq> []"
    by simp
  from json_output [THEN conjunct2, THEN conjunct2, THEN conjunct2, THEN conjunct1,
      rule_format, OF this, of ?env]
  have 2: "hd (MarshalIndent ?env File_json ?fs) = CHR ''[''"
    by simp
  have fuel: "(0 :: nat) < 3"
    by simp
  have fetch: "files_fetch ?empty_env ''key'' 0 (files_url ''kw'' [] [] [] (clampPageSize 10) 0)
      = Inr (snd (hd empty_file_page))"
    by code_simp
  have empty: "Files (snd (hd empty_file_page)) = []"
    by code_simp
  from json_output [THEN conjunct2, THEN conjunct2, THEN conjunct2, THEN conjunct2,
      rule_format, OF fuel fetch empty]
  obtain st' where "?empty_run = Done st'" and "last (stdout st') = ''null''"
    by blast
  then have 3: "is_Done ?empty_run" and 4: "last (stdout (outcome_state ?empty_run)) = ''null''"
    by simp_all
  from 1 2 3 4 show ?thesis
    by blast
qed

section \<open>The client-side filter of the buckets command\<close>

text \<open>
  C5. With a non-empty cloud-provider type filter, the records that \<^verbatim>\<open>handleBuckets\<close>
  forwards to its sink are, page by page and in arrival order, exactly the buckets of the
  decoded pages whose type tag \<^verbatim>\<open>strings.EqualFold\<close> matches with the filter: they are the
  records collected in memory, the rows after the header of the CSV file of a completed
  run, and, in names-only mode without an output path, the lines a completed run prints
  after its progress writes and the line feed, one bucket name per line. On ASCII strings
  \<^verbatim>\<open>strings.EqualFold\<close> holds exactly when the two strings are equal after lower-casing.
  The example: a page of three aws and two azure buckets, filter \<^verbatim>\<open>aws\<close>, names only.
\<close>

theorem bucket_type_filter:
  assumes "ct \<noteq> []"
  shows
   "allRecords (outcome_state (handleBuckets env apiKey kw ct limit S [] ob fuel))
      = concat (map (\<lambda>r. filter (\<lambda>b. EqualFold (hasUnicode env) (Bucket_Type b) ct) (Buckets r))
          (responses (outcome_state (handleBuckets env apiKey kw ct limit S [] ob fuel)))) \<and>
    (out \<noteq> [] \<longrightarrow> handleBuckets env apiKey kw ct limit S out ob fuel = Done st \<longrightarrow>
       csvfile st = buckets_header ob #
         concat (map (\<lambda>r. map (buckets_row env ob)
                   (filter (\<lambda>b. EqualFold (hasUnicode env) (Bucket_Type b) ct) (Buckets r)))
           (responses st))) \<and>
    (handleBuckets env apiKey kw ct limit S [] True fuel = Done st' \<longrightarrow>
       drop (Suc (length (responses st'))) (stdout st')
         = map (\<lambda>b. Bucket_Bucket b @ [CHR 0x0A])
             (concat (map (\<lambda>r. filter (\<lambda>b. EqualFold (hasUnicode env) (Bucket_Type b) ct) (Buckets r))
                (responses st')))) \<and>
    ((\<forall>c \<in> set (Bucket_Type bk). (of_char c :: nat) < 128) \<longrightarrow>
     (\<forall>c \<in> set ct. (of_char c :: nat) < 128) \<longrightarrow>
       (EqualFold (hasUnicode env) (Bucket_Type bk) ct
          \<longleftrightarrow> map ascii_lower (Bucket_Type bk) = map ascii_lower ct))"
  using handleBuckets_collect [of env apiKey kw ct limit S ob fuel]
    handleBuckets_rows [of env apiKey kw ct limit S out ob fuel st]
    handleBuckets_names [of env apiKey kw ct limit S fuel st']
    EqualFold_ascii [of "Bucket_Type bk" ct "hasUnicode env"]
  unfolding clientFilter_filter [OF assms]
  by blast


theorem bucket_type_filter_witness:
  "map Bucket_Bucket (allRecords (outcome_state
     (handleBuckets (table_env [] five_buckets) ''key'' [] ''aws'' 0 0 [] True 3)))
     = [''one'', ''three'', ''five''] \<and>
   drop 2 (stdout (outcome_state
     (handleBuckets (table_env [] five_buckets) ''key'' [] ''aws'' 0 0 [] True 3)))
     = [''one'' @ [CHR 0x0A], ''three'' @ [CHR 0x0A], ''five'' @ [CHR 0x0A]] \<and>
   csvfile (outcome_state
     (handleBuckets (table_env [] five_buckets) ''key'' [] ''aws'' 0 0 ''out.csv'' True 3))
     = [[''bucket''], [''one''], [''three''], [''five'']] \<and>
   EqualFold (hasUnicode (table_env [] five_buckets)) (Bucket_Type (example_bucket ''three'' ''AWS'')) ''aws''"
proof -
  let ?env = "table_env [] five_buckets"
  let ?m = "handleBuckets ?env ''key'' [] ''aws'' 0 0 [] True 3"
  let ?c = "handleBuckets ?env ''key'' [] ''aws'' 0 0 ''out.csv'' True 3"
  let ?match = "\<lambda>r. filter (\<lambda>b. EqualFold (hasUnicode ?env) (Bucket_Type b) ''aws'') (Buckets r)"
  have ne: "''aws'' \<noteq> []"
    by simp
  note inst = bucket_type_filter [OF ne, where env = ?env and apiKey = "''key''" and kw = "[]"
      and limit = 0 and S = 0 and fuel = 3 and ob = True and out = "''out.csv''"
      and st = "outcome_state ?c" and st' = "outcome_state ?m"
      and bk = "example_bucket ''three'' ''AWS''"]
  have "is_Done ?m" and "is_Done ?c"
    by code_simp+
  then have m: "?m = Done (outcome_state ?m)" and c: "?c = Done (outcome_state ?c)"
    by (simp_all add: is_Done_eq)
  have out: "''out.csv'' \<noteq> []"
    by simp
  have em: "map Bucket_Bucket (concat (map ?match (responses (outcome_state ?m))))
      = [''one'', ''three'', ''five'']"
    by code_simp
  have lm: "Suc (length (responses (outcome_state ?m))) = 2"
    by code_simp
  have ec: "buckets_header True #
         concat (map (\<lambda>r. map (buckets_row ?env True) (?match r)) (responses (outcome_state ?c)))
      = [[''bucket''], [''one''], [''three''], [''five'']]"
    by code_simp
  have ascii: "\<forall>c \<in> set (Bucket_Type (example_bucket ''three'' ''AWS'')). (of_char c :: nat) < 128"
      "\<forall>c \<in> set ''aws''. (of_char c :: nat) < 128"
    by code_simp+
  have lower: "map ascii_lower (Bucket_Type (example_bucket ''three'' ''AWS'')) = map ascii_lower ''aws''"
    by code_simp
  from inst [THEN conjunct1] have 1: "map Bucket_Bucket (allRecords (outcome_state ?m))
      = [''one'', ''three'', ''five'']"
    unfolding em [symmetric] by simp
  from inst [THEN conjunct2, THEN conjunct2, THEN conjunct1, rule_format, OF m]
  have "drop 2 (stdout (outcome_state ?m))
      = map (\<lambda>b. Bucket_Bucket b @ [CHR 0x0A]) (concat (map ?match (responses (outcome_state ?m))))"
    unfolding lm .
  then have "drop 2 (stdout (outcome_state ?m))
      = map (\<lambda>n. n @ [CHR 0x0A]) (map Bucket_Bucket (concat (map ?match (responses (outcome_state ?m)))))"
    by (simp add: comp_def)
  then have 2: "drop 2 (stdout (outcome_state ?m))
      = [''one'' @ [CHR 0x0A], ''three'' @ [CHR 0x0A], ''five'' @ [CHR 0x0A]]"
    unfolding em by simp
  from inst [THEN conjunct2, THEN conjunct1, rule_format, OF out c]
  have 3: "csvfile (outcome_state ?c) = [[''bucket''], [''one''], [''three''], [''five'']]"
    unfolding ec .
  from inst [THEN conjunct2, THEN conjunct2, THEN conjunct2] ascii lower
  have 4: "EqualFold (hasUnicode ?env) (Bucket_Type (example_bucket ''three'' ''AWS'')) ''aws''"
    by blast
  from 1 2 3 4 show ?thesis
    by blast
qed

section \<open>Offsets and the stop of the loop\<close>

text \<open>
  C3. For every page size \<open>P\<close> with \<open>1 \<le> P \<le> 1000\<close>, every starting offset \<open>S\<close> and every
  remote API, the requests that \<^verbatim>\<open>handleFiles\<close> and \<^verbatim>\<open>handleBuckets\<close> issue are, in order,
  the requests at the offsets \<open>S\<close>, \<open>S + P\<close>, \<open>S + 2 * P\<close>, ..., however the run ends. The run
  completes with the decoded pages \<open>rs\<close> exactly when the output file (if any) could be
  created, there is fuel for \<open>length rs\<close> passes, the request number \<open>k\<close> at offset
  \<open>S + k * P\<close> succeeds and decodes to \<open>rs ! k\<close>, and the stop test holds at the last page
  of \<open>rs\<close> and at no page before it: the page has fewer than \<open>P\<close> records, or the tracked
  total is positive and \<open>offset + P >= total\<close>. Sums and products are those of Go's
  \<^verbatim>\<open>int\<close>, and the comparisons are signed; as long as \<open>S + n * P\<close> stays within the
  range of \<^verbatim>\<open>int\<close>, the offset of request \<open>n\<close> is that integer.
\<close>

theorem pagination_offsets_and_stop:
  assumes "1 \<le> sint P" and "sint P \<le> 1000"
  shows
   "requests (outcome_state (handleFiles env apiKey kw b e ne P S out fuel))
      = map (\<lambda>k. files_url kw b e ne P (S + of_nat k * P))
          [0..<length (requests (outcome_state (handleFiles env apiKey kw b e ne P S out fuel)))] \<and>
    ((\<exists>st. handleFiles env apiKey kw b e ne P S out fuel = Done st \<and> responses st = frs) \<longleftrightarrow>
       (out \<noteq> [] \<longrightarrow> os_Create env out = None) \<and> frs \<noteq> [] \<and> length frs \<le> fuel \<and>
       (\<forall>k < length frs.
          files_fetch env apiKey k (files_url kw b e ne P (S + of_nat k * P)) = Inr (frs ! k)) \<and>
       (\<forall>k < length frs.
          (int (length (Files (frs ! k))) < sint P \<or>
           (0 < sint (trackedTotal (map Files_Meta_Results (take (Suc k) frs))) \<and>
            sint (trackedTotal (map Files_Meta_Results (take (Suc k) frs))) \<le> sint (S + of_nat k * P + P)))
          \<longleftrightarrow> Suc k = length frs)) \<and>
    requests (outcome_state (handleBuckets env apiKey kw ct P S out ob fuel))
      = map (\<lambda>k. buckets_url kw ct P (S + of_nat k * P))
          [0..<length (requests (outcome_state (handleBuckets env apiKey kw ct P S out ob fuel)))] \<and>
    ((\<exists>st. handleBuckets env apiKey kw ct P S out ob fuel = Done st \<and> responses st = brs) \<longleftrightarrow>
       (out \<noteq> [] \<longrightarrow> os_Create env out = None) \<and> brs \<noteq> [] \<and> length brs \<le> fuel \<and>
       (\<forall>k < length brs.
          buckets_fetch env apiKey k (buckets_url kw ct P (S + of_nat k * P)) = Inr (brs ! k)) \<and>
       (\<forall>k < length brs.
          (int (length (Buckets (brs ! k))) < sint P \<or>
           (0 < sint (trackedTotal (map Buckets_Meta_Results (take (Suc k) brs))) \<and>
            sint (trackedTotal (map Buckets_Meta_Results (take (Suc k) brs))) \<le> sint (S + of_nat k * P + P)))
          \<longleftrightarrow> Suc k = length brs)) \<and>
    (- (2 ^ 63) \<le> sint S + int n * sint P \<longrightarrow> sint S + int n * sint P < 2 ^ 63 \<longrightarrow>
       sint (S + of_nat n * P) = sint S + int n * sint P)"
proof -
  note c = clampPageSize_id [OF assms]
  have 1: "requests (outcome_state (handleFiles env apiKey kw b e ne P S out fuel))
      = map (\<lambda>k. files_url kw b e ne P (S + of_nat k * P))
          [0..<length (requests (outcome_state (handleFiles env apiKey kw b e ne P S out fuel)))]"
    using handleFiles_requests [of env apiKey kw b e ne P S out fuel] unfolding c .
  have 3: "requests (outcome_state (handleBuckets env apiKey kw ct P S out ob fuel))
      = map (\<lambda>k. buckets_url kw ct P (S + of_nat k * P))
          [0..<length (requests (outcome_state (handleBuckets env apiKey kw ct P S out ob fuel)))]"
    using handleBuckets_requests [of env apiKey kw ct P S out ob fuel] unfolding c .
  note f_iff = handleFiles_Done_iff [of env apiKey kw b e ne P S out fuel frs,
      unfolded c paged_run_def trackedTotal_def [symmetric] shouldBreak_def]
  note b_iff = handleBuckets_Done_iff [of env apiKey kw ct P S out ob fuel brs,
      unfolded c paged_run_def trackedTotal_def [symmetric] shouldBreak_def]
  from f_iff have 2: "(\<exists>st. handleFiles env apiKey kw b e ne P S out fuel = Done st \<and> responses st = frs) \<longleftrightarrow>
       (out \<noteq> [] \<longrightarrow> os_Create env out = None) \<and> frs \<noteq> [] \<and> length frs \<le> fuel \<and>
       (\<forall>k < length frs.
          files_fetch env apiKey k (files_url kw b e ne P (S + of_nat k * P)) = Inr (frs ! k)) \<and>
       (\<forall>k < length frs.
          (int (length (Files (frs ! k))) < sint P \<or>
           (0 < sint (trackedTotal (map Files_Meta_Results (take (Suc k) frs))) \<and>
            sint (trackedTotal (map Files_Meta_Results (take (Suc k) frs))) \<le> sint (S + of_nat k * P + P)))
          \<longleftrightarrow> Suc k = length frs)"
    by (simp add: conj_ac)
  from b_iff have 4: "(\<exists>st. handleBuckets env apiKey kw ct P S out ob fuel = Done st \<and> responses st = brs) \<longleftrightarrow>
       (out \<noteq> [] \<longrightarrow> os_Create env out = None) \<and> brs \<noteq> [] \<and> length brs \<le> fuel \<and>
       (\<forall>k < length brs.
          buckets_fetch env apiKey k (buckets_url kw ct P (S + of_nat k * P)) = Inr (brs ! k)) \<and>
       (\<forall>k < length brs.
          (int (length (Buckets (brs ! k))) < sint P \<or>
           (0 < sint (trackedTotal (map Buckets_Meta_Results (take (Suc k) brs))) \<and>
            sint (trackedTotal (map Buckets_Meta_Results (take (Suc k) brs))) \<le> sint (S + of_nat k * P + P)))
          \<longleftrightarrow> Suc k = length brs)"
    by (simp add: conj_ac)
  have 5: "- (2 ^ 63) \<le> sint S + int n * sint P \<longrightarrow> sint S + int n * sint P < 2 ^ 63 \<longrightarrow>
       sint (S + of_nat n * P) = sint S + int n * sint P"
    by (simp add: offset_no_overflow)
  from 1 2 3 4 5 show ?thesis
    by (intro conjI)
qed

theorem pagination_offsets_and_stop_witness:
  "is_Done (handleFiles (table_env two_file_pages azure_pages) ''key'' ''kw'' [] [] [] 2 0 [] 3) \<and>
   responses (outcome_state
     (handleFiles (table_env two_file_pages azure_pages) ''key'' ''kw'' [] [] [] 2 0 [] 3))
     = map snd two_file_pages \<and>
   map (\<lambda>u. query u ''start'') (requests (outcome_state
     (handleFiles (table_env two_file_pages azure_pages) ''key'' ''kw'' [] [] [] 2 0 [] 3)))
     = [Some ''0'', Some ''2''] \<and>
   is_Done (handleBuckets (table_env two_file_pages azure_pages) ''key'' [] ''aws'' 2 0 [] True 3) \<and>
   responses (outcome_state
     (handleBuckets (table_env two_file_pages azure_pages) ''key'' [] ''aws'' 2 0 [] True 3))
     = map snd azure_pages \<and>
   sint (0 + of_nat 1 * 2 :: go_int) = 2"
proof -
  let ?env = "table_env two_file_pages azure_pages"
  let ?F = "handleFiles ?env ''key'' ''kw'' [] [] [] 2 0 [] 3"
  let ?B = "handleBuckets ?env ''key'' [] ''aws'' 2 0 [] True 3"
  let ?frs = "map snd two_file_pages"
  let ?brs = "map snd azure_pages"
  have p: "1 \<le> sint (2 :: go_int)" "sint (2 :: go_int) \<le> 1000"
    by simp_all
  note inst = pagination_offsets_and_stop [OF p, where env = ?env and apiKey = "''key''"
      and S = 0 and out = "[]" and fuel = 3 and frs = ?frs and brs = ?brs and n = 1]
  note files = inst [where kw = "''kw''" and b = "[]" and e = "[]" and ne = "[]"]
  note buckets = inst [where kw = "[]" and ct = "''aws''" and ob = True]
  have create: "([] :: string) \<noteq> [] \<longrightarrow> os_Create ?env [] = None"
    by simp
  have f1: "?frs \<noteq> []" "length ?frs \<le> 3"
    by (simp_all add: two_file_pages_def)
  have "\<forall>k \<in> set [0..<length ?frs].
      files_fetch ?env ''key'' k (files_url ''kw'' [] [] [] 2 (0 + of_nat k * 2)) = Inr (?frs ! k)"
    by code_simp
  then have f2: "\<forall>k < length ?frs.
      files_fetch ?env ''key'' k (files_url ''kw'' [] [] [] 2 (0 + of_nat k * 2)) = Inr (?frs ! k)"
    by simp
  have "\<forall>k \<in> set [0..<length ?frs].
      (int (length (Files (?frs ! k))) < sint (2 :: go_int) \<or>
       (0 < sint (trackedTotal (map Files_Meta_Results (take (Suc k) ?frs))) \<and>
        sint (trackedTotal (map Files_Meta_Results (take (Suc k) ?frs))) \<le> sint (0 + of_nat k * 2 + 2 :: go_int)))
      \<longleftrightarrow> Suc k = length ?frs"
    by code_simp
  then have f3: "\<forall>k < length ?frs.
      (int (length (Files (?frs ! k))) < sint (2 :: go_int) \<or>
       (0 < sint (trackedTotal (map Files_Meta_Results (take (Suc k) ?frs))) \<and>
        sint (trackedTotal (map Files_Meta_Results (take (Suc k) ?frs))) \<le> sint (0 + of_nat k * 2 + 2 :: go_int)))
      \<longleftrightarrow> Suc k = length ?frs"
    by simp
  from files [THEN conjunct2, THEN conjunct1, THEN iffD2] create f1 f2 f3
  obtain st where "?F = Done st" "responses st = ?frs"
    by blast
  then have 1: "is_Done ?F" and 2: "responses (outcome_state ?F) = ?frs"
    by simp_all
  have len: "length (requests (outcome_state ?F)) = 2"
    by code_simp
  from files [THEN conjunct1]
  have "requests (outcome_state ?F)
      = map (\<lambda>k. files_url ''kw'' [] [] [] 2 (0 + of_nat k * 2)) [0..<2]"
    unfolding len .
  then have "map (\<lambda>u. query u ''start'') (requests (outcome_state ?F))
      = map (\<lambda>k. Some (sprintf_d (sint (0 + of_nat k * 2 :: go_int)))) [0..<2]"
    by (simp only: map_map comp_def files_url_start)
  also have "\<dots> = [Some ''0'', Some ''2'']"
    by code_simp
  finally have 3: "map (\<lambda>u. query u ''start'') (requests (outcome_state ?F)) = [Some ''0'', Some ''2'']" .
  have b1: "?brs \<noteq> []" "length ?brs \<le> 3"
    by (simp_all add: azure_pages_def)
  have "\<forall>k \<in> set [0..<length ?brs].
      buckets_fetch ?env ''key'' k (buckets_url [] ''aws'' 2 (0 + of_nat k * 2)) = Inr (?brs ! k)"
    by code_simp
  then have b2: "\<forall>k < length ?brs.
      buckets_fetch ?env ''key'' k (buckets_url [] ''aws'' 2 (0 + of_nat k * 2)) = Inr (?brs ! k)"
    by simp
  have "\<forall>k \<in> set [0..<length ?brs].
      (int (length (Buckets (?brs ! k))) < sint (2 :: go_int) \<or>
       (0 < sint (trackedTotal (map Buckets_Meta_Results (take (Suc k) ?brs))) \<and>
        sint (trackedTotal (map Buckets_Meta_Results (take (Suc k) ?brs))) \<le> sint (0 + of_nat k * 2 + 2 :: go_int)))
      \<longleftrightarrow> Suc k = length ?brs"
    by code_simp
  then have b3: "\<forall>k < length ?brs.
      (int (length (Buckets (?brs ! k))) < sint (2 :: go_int) \<or>
       (0 < sint (trackedTotal (map Buckets_Meta_Results (take (Suc k) ?brs))) \<and>
        sint (trackedTotal (map Buckets_Meta_Results (take (Suc k) ?brs))) \<le> sint (0 + of_nat k * 2 + 2 :: go_int)))
      \<longleftrightarrow> Suc k = length ?brs"
    by simp
  from buckets [THEN conjunct2, THEN conjunct2, THEN conjunct2, THEN conjunct1, THEN iffD2]
    create b1 b2 b3
  obtain st' where "?B = Done st'" "responses st' = ?brs"
    by blast
  then have 4: "is_Done ?B" and 5: "responses (outcome_state ?B) = ?brs"
    by simp_all
  from files [THEN conjunct2, THEN conjunct2, THEN conjunct2, THEN conjunct2]
  have 6: "sint (0 + of_nat 1 * 2 :: go_int) = 2"
    by simp
  from 1 2 3 4 5 6 show ?thesis
    by blast
qed

section \<open>A first page that reports a total of zero\<close>

text \<open>
  C2. When the first page decodes to an envelope that reports a total of 0 and holds exactly
  as many records as the page size in use, the loop does not stop after that page: with
  fuel for two passes the second request is issued, at the offset advanced by the page
  size. Such a run completes only on a short page: when it completes, at least two pages
  were decoded and the last one holds fewer records than the page size.
\<close>

theorem zero_total_continues:
  "(files_fetch env apiKey 0 (files_url kw b e ne (clampPageSize limit) S) = Inr fr \<longrightarrow>
    Files_Meta_Results fr = 0 \<longrightarrow> int (length (Files fr)) = sint (clampPageSize limit) \<longrightarrow>
      (2 \<le> fuel \<longrightarrow> (out \<noteq> [] \<longrightarrow> os_Create env out = None) \<longrightarrow>
         take 2 (requests (outcome_state (handleFiles env apiKey kw b e ne limit S out fuel)))
           = [files_url kw b e ne (clampPageSize limit) S,
              files_url kw b e ne (clampPageSize limit) (S + clampPageSize limit)]) \<and>
      (\<forall>st. handleFiles env apiKey kw b e ne limit S out fuel = Done st \<longrightarrow>
         2 \<le> length (responses st) \<and>
         int (length (Files (last (responses st)))) < sint (clampPageSize limit))) \<and>
   (buckets_fetch env apiKey 0 (buckets_url kw ct (clampPageSize limit) S) = Inr br \<longrightarrow>
    Buckets_Meta_Results br = 0 \<longrightarrow> int (length (Buckets br)) = sint (clampPageSize limit) \<longrightarrow>
      (2 \<le> fuel \<longrightarrow> (out \<noteq> [] \<longrightarrow> os_Create env out = None) \<longrightarrow>
         take 2 (requests (outcome_state (handleBuckets env apiKey kw ct limit S out ob fuel)))
           = [buckets_url kw ct (clampPageSize limit) S,
              buckets_url kw ct (clampPageSize limit) (S + clampPageSize limit)]) \<and>
      (\<forall>st. handleBuckets env apiKey kw ct limit S out ob fuel = Done st \<longrightarrow>
         2 \<le> length (responses st) \<and>
         int (length (Buckets (last (responses st)))) < sint (clampPageSize limit)))"
  using handleFiles_zero_total_next [of env apiKey kw b e ne limit S fr fuel out]
    handleFiles_zero_total_Done [of env apiKey kw b e ne limit S fr out fuel]
    handleBuckets_zero_total_next [of env apiKey kw ct limit S br fuel out ob]
    handleBuckets_zero_total_Done [of env apiKey kw ct limit S br out ob fuel]
  by blast

theorem zero_total_continues_witness:
  "map (\<lambda>u. query u ''start'') (take 2 (requests (outcome_state
     (handleFiles (table_env two_file_pages azure_pages) ''key'' ''kw'' [] [] [] 2 0 [] 3))))
     = [Some ''0'', Some ''2''] \<and>
   length (Files (last (responses (outcome_state
     (handleFiles (table_env two_file_pages azure_pages) ''key'' ''kw'' [] [] [] 2 0 [] 3))))) < 2 \<and>
   map (\<lambda>u. query u ''start'') (take 2 (requests (outcome_state
     (handleBuckets (table_env two_file_pages azure_pages) ''key'' [] ''aws'' 2 0 [] True 3))))
     = [Some ''0'', Some ''2''] \<and>
   length (Buckets (last (responses (outcome_state
     (handleBuckets (table_env two_file_pages azure_pages) ''key'' [] ''aws'' 2 0 [] True 3))))) < 2"
proof -
  let ?env = "table_env two_file_pages azure_pages"
  let ?F = "handleFiles ?env ''key'' ''kw'' [] [] [] 2 0 [] 3"
  let ?B = "handleBuckets ?env ''key'' [] ''aws'' 2 0 [] True 3"
  let ?fr = "snd (hd two_file_pages)"
  let ?br = "snd (hd azure_pages)"
  note inst = zero_total_continues [where env = ?env and apiKey = "''key''" and limit = 2
      and S = 0 and out = "[]" and fuel = 3 and fr = ?fr and br = ?br]
  note files = inst [where kw = "''kw''" and b = "[]" and e = "[]" and ne = "[]", THEN conjunct1]
  note buckets = inst [where kw = "[]" and ct = "''aws''" and ob = True, THEN conjunct2]
  have c: "clampPageSize (2 :: go_int) = 2"
    by (simp add: clampPageSize_def)
  have ff: "files_fetch ?env ''key'' 0 (files_url ''kw'' [] [] [] (clampPageSize 2) 0) = Inr ?fr"
    and fz: "Files_Meta_Results ?fr = 0"
    and fl: "int (length (Files ?fr)) = sint (clampPageSize (2 :: go_int))"
    by code_simp+
  have bf: "buckets_fetch ?env ''key'' 0 (buckets_url [] ''aws'' (clampPageSize 2) 0) = Inr ?br"
    and bz: "Buckets_Meta_Results ?br = 0"
    and bl: "int (length (Buckets ?br)) = sint (clampPageSize (2 :: go_int))"
    by code_simp+
  have fuel: "(2 :: nat) \<le> 3"
    by simp
  have create: "os_Create ?env [] = None" if "([] :: string) \<noteq> []"
    using that by simp
  have "is_Done ?F" and "is_Done ?B"
    by code_simp+
  then have dF: "?F = Done (outcome_state ?F)" and dB: "?B = Done (outcome_state ?B)"
    by (simp_all add: is_Done_eq)
  from files [rule_format, OF ff fz fl, THEN conjunct1, rule_format, OF fuel create]
  have "take 2 (requests (outcome_state ?F))
      = [files_url ''kw'' [] [] [] 2 0, files_url ''kw'' [] [] [] 2 (0 + 2)]"
    unfolding c .
  then have "map (\<lambda>u. query u ''start'') (take 2 (requests (outcome_state ?F)))
      = [Some (sprintf_d (sint (0 :: go_int))), Some (sprintf_d (sint (0 + 2 :: go_int)))]"
    by (simp only: list.map files_url_start)
  also have "\<dots> = [Some ''0'', Some ''2'']"
    by code_simp
  finally have 1: "map (\<lambda>u. query u ''start'') (take 2 (requests (outcome_state ?F)))
      = [Some ''0'', Some ''2'']" .
  from files [rule_format, OF ff fz fl, THEN conjunct2, rule_format, OF dF]
  have 2: "length (Files (last (responses (outcome_state ?F)))) < 2"
    unfolding c by simp
  from buckets [rule_format, OF bf bz bl, THEN conjunct1, rule_format, OF fuel create]
  have "take 2 (requests (outcome_state ?B))
      = [buckets_url [] ''aws'' 2 0, buckets_url [] ''aws'' 2 (0 + 2)]"
    unfolding c .
  then have "map (\<lambda>u. query u ''start'') (take 2 (requests (outcome_state ?B)))
      = [Some (sprintf_d (sint (0 :: go_int))), Some (sprintf_d (sint (0 + 2 :: go_int)))]"
    by (simp only: list.map buckets_url_start)
  also have "\<dots> = [Some ''0'', Some ''2'']"
    by code_simp
  finally have 3: "map (\<lambda>u. query u ''start'') (take 2 (requests (outcome_state ?B)))
      = [Some ''0'', Some ''2'']" .
  from buckets [rule_format, OF bf bz bl, THEN conjunct2, rule_format, OF dB]
  have 4: "length (Buckets (last (responses (outcome_state ?B)))) < 2"
    unfolding c by simp
  from 1 2 3 4 show ?thesis
    by blast
qed

end
